theory Spec2Isabelle
  imports Main "HOL-Library.Word" "HOL-Library.Option_ord" "HOL-Library.Sublist"
begin

section \<open>Strings\<close>

text \<open>
  A JavaScript string is modelled as a \<^typ>\<open>string\<close>: a list of code units, here the
  code units 0 to 255 (Latin-1). In that range the white space of \<open>String.prototype.trim\<close>
  and of the regular-expression class \<open>\s\<close> is TAB, LF, VT, FF, CR, SPACE and NBSP; the
  class \<open>\d\<close> is the ten ASCII digits.
\<close>

definition isSpace :: "char \<Rightarrow> bool" where
  "isSpace c = (c \<in> set [CHR 0x09, CHR 0x0A, CHR 0x0B, CHR 0x0C, CHR 0x0D, CHR 0x20, CHR 0xA0])"

definition isDigit :: "char \<Rightarrow> bool" where
  "isDigit c = (c \<in> set ''0123456789'')"

text \<open>\<open>s.trim()\<close>: white space is dropped at both ends.\<close>

definition trim :: "string \<Rightarrow> string" where
  "trim s = rev (dropWhile isSpace (rev (dropWhile isSpace s)))"

text \<open>\<open>s.startsWith(p)\<close>.\<close>

fun startsWith :: "string \<Rightarrow> string \<Rightarrow> bool" where
  "startsWith s [] = True"
| "startsWith [] (p # ps) = False"
| "startsWith (c # cs) (p # ps) = (c = p \<and> startsWith cs ps)"

text \<open>
  \<open>s.replace(/C/g, "")\<close> for a one-character class \<open>C\<close>: the scan goes left to right and
  every code unit of the class is replaced by the empty string.
\<close>

fun replaceAllClass :: "(char \<Rightarrow> bool) \<Rightarrow> string \<Rightarrow> string" where
  "replaceAllClass cls [] = []"
| "replaceAllClass cls (c # cs) =
     (if cls c then replaceAllClass cls cs else c # replaceAllClass cls cs)"

text \<open>\<open>s.replace(/^\+/, "")\<close>: one plus sign at the very start is removed.\<close>

fun stripLeadingPlus :: "string \<Rightarrow> string" where
  "stripLeadingPlus (c # cs) = (if c = CHR ''+'' then cs else c # cs)"
| "stripLeadingPlus [] = []"

text \<open>\<open>s.slice(a, b)\<close> and \<open>s.slice(a)\<close> for indices that are not negative.\<close>

definition slice :: "string \<Rightarrow> nat \<Rightarrow> nat \<Rightarrow> string" where
  "slice s a b = take (b - a) (drop a s)"

definition sliceFrom :: "string \<Rightarrow> nat \<Rightarrow> string" where
  "sliceFrom s a = drop a s"

section \<open>Phone numbers (validators.ts)\<close>

definition normalizePhone :: "string \<Rightarrow> string" where
  "normalizePhone phone =
     (let hasPlus = startsWith (trim phone) ''+'';
          digits = replaceAllClass (\<lambda>c. \<not> isDigit c) phone
      in if hasPlus then ''+'' @ digits else digits)"

definition isValidPhone :: "string \<Rightarrow> bool" where
  "isValidPhone phone =
     (let normalized = normalizePhone phone;
          digitsOnly = stripLeadingPlus normalized
      in length digitsOnly \<ge> 7 \<and> length digitsOnly \<le> 15)"

definition formatPhone :: "string \<Rightarrow> string" where
  "formatPhone phone =
     (let normalized = normalizePhone phone;
          digitsOnly = stripLeadingPlus normalized
      in if length digitsOnly = 10 then
           ''('' @ slice digitsOnly 0 3 @ '') '' @ slice digitsOnly 3 6 @ ''-'' @ sliceFrom digitsOnly 6
         else if length digitsOnly = 11 \<and> startsWith digitsOnly ''1'' then
           ''+1 ('' @ slice digitsOnly 1 4 @ '') '' @ slice digitsOnly 4 7 @ ''-'' @ sliceFrom digitsOnly 7
         else normalized)"

section \<open>Run lock (worker/lock.ts)\<close>

text \<open>
  The \<open>systemLock\<close> table maps a lock name to its row. Instants are milliseconds since the
  epoch, as the comparison of two \<open>Date\<close> values compares them. The store is the table in
  memory: a read or a write of it always answers, so the \<open>catch\<close> clause of the lock
  functions, which only a failing store call reaches, has no run here.
\<close>

record systemLock =
  lockedBy :: "string option"
  expiresAt :: int

type_synonym lock_table = "string \<rightharpoonup> systemLock"

definition LOCK_TTL_MS :: int where
  "LOCK_TTL_MS = 5 * 60 * 1000"

text \<open>The test \<open>existingLock && existingLock.expiresAt > now\<close>.\<close>

definition lockIsHeld :: "int \<Rightarrow> systemLock option \<Rightarrow> bool" where
  "lockIsHeld now existingLock =
     (case existingLock of None \<Rightarrow> False | Some l \<Rightarrow> expiresAt l > now)"

text \<open>
  \<open>prisma.systemLock.upsert\<close>: the update and the create branch write the same holder and
  expiry.
\<close>

definition upsertLock :: "string \<Rightarrow> string \<Rightarrow> int \<Rightarrow> lock_table \<Rightarrow> lock_table" where
  "upsertLock lockName workerId expires db =
     (case db lockName of
        Some l \<Rightarrow> db(lockName \<mapsto> l\<lparr>lockedBy := Some workerId, expiresAt := expires\<rparr>)
      | None \<Rightarrow> db(lockName \<mapsto> \<lparr>lockedBy = Some workerId, expiresAt = expires\<rparr>))"

definition acquireLock :: "int \<Rightarrow> string \<Rightarrow> string \<Rightarrow> lock_table \<Rightarrow> bool \<times> lock_table" where
  "acquireLock now lockName workerId db =
     (let expires = now + LOCK_TTL_MS;
          existingLock = db lockName
      in if lockIsHeld now existingLock then (False, db)
         else (True, upsertLock lockName workerId expires db))"

text \<open>
  \<open>acquireLock\<close> awaits the store twice: once for \<open>findUnique\<close>, once for \<open>upsert\<close>.
  Another call may run between the two. A call in progress is at one of three points:
  before the read, after the read (holding the row it saw), or returned.
\<close>

datatype acquire_point = BeforeRead | AfterRead "systemLock option" | Returned bool

fun acquireLock_step ::
  "int \<Rightarrow> string \<Rightarrow> string \<Rightarrow> acquire_point \<times> lock_table \<Rightarrow> acquire_point \<times> lock_table" where
  "acquireLock_step now lockName workerId (BeforeRead, db) = (AfterRead (db lockName), db)"
| "acquireLock_step now lockName workerId (AfterRead existingLock, db) =
     (if lockIsHeld now existingLock then (Returned False, db)
      else (Returned True, upsertLock lockName workerId (now + LOCK_TTL_MS) db))"
| "acquireLock_step now lockName workerId (Returned r, db) = (Returned r, db)"

text \<open>
  Two calls \<open>A\<close> and \<open>B\<close> for the same lock name, run under a schedule that says whose
  step is next (\<open>True\<close> for \<open>A\<close>).
\<close>

fun acquireLock_race ::
  "bool list \<Rightarrow> int \<times> string \<Rightarrow> int \<times> string \<Rightarrow> string \<Rightarrow>
   acquire_point \<times> acquire_point \<times> lock_table \<Rightarrow> acquire_point \<times> acquire_point \<times> lock_table" where
  "acquireLock_race [] a b lockName st = st"
| "acquireLock_race (True # sched) a b lockName (pa, pb, db) =
     (case acquireLock_step (fst a) lockName (snd a) (pa, db) of
        (pa', db') \<Rightarrow> acquireLock_race sched a b lockName (pa', pb, db'))"
| "acquireLock_race (False # sched) a b lockName (pa, pb, db) =
     (case acquireLock_step (fst b) lockName (snd b) (pb, db) of
        (pb', db') \<Rightarrow> acquireLock_race sched a b lockName (pa, pb', db'))"

section \<open>Assignment selector (worker/assign.ts)\<close>

text \<open>
  The tables of the store are lists of rows in table order. Generated identifiers are
  modelled as natural numbers, instants as milliseconds since the epoch.
\<close>

record agent =
  agent_id :: nat
  agent_name :: string
  agent_email :: string
  agent_phone :: "string option"
  isActive :: bool
  bookingUrl :: "string option"
  assignedCount :: nat
  lastAssignedAt :: "int option"

text \<open>
  A thrown value as a catch clause reads it: its \<open>stack\<close> and \<open>message\<close> properties (\<open>None\<close>
  when undefined or null) and its rendering by \<open>String(error)\<close>.
\<close>

record thrown =
  err_stack :: "string option"
  err_message :: "string option"
  err_string :: string

text \<open>
  What stops an invocation of the processor: the \<open>Error\<close> that the selector constructs when no
  agent is active, or the value thrown by one of the collaborators.
\<close>

datatype failure =
    NoActiveAgents
  | ExtractionFailed thrown
  | ReplyFailed thrown
  | MarkReadFailed thrown

text \<open>
  Modelled from the spec: where a null \<open>lastAssignedAt\<close> sorts under
  \<open>orderBy: { lastAssignedAt: "asc" }\<close>. The schema and the database that fix it are not
  among the sources; the spec says that never-assigned recipients sort first, which is the
  order of \<^typ>\<open>int option\<close> (\<open>None\<close> below every \<open>Some t\<close>).

  The query is \<open>prisma.agent.findFirst({ where: { isActive: true }, orderBy: ... })\<close>.
  Among rows with equal timestamps the store may answer any of them; the model answers the
  first in table order.
\<close>

definition findFirstActive :: "agent list \<Rightarrow> agent option" where
  "findFirstActive tbl =
     (case sort_key lastAssignedAt (filter isActive tbl) of [] \<Rightarrow> None | a # _ \<Rightarrow> Some a)"

text \<open>\<open>prisma.agent.update({ where: { id }, data })\<close>.\<close>

definition updateAgent :: "nat \<Rightarrow> (agent \<Rightarrow> agent) \<Rightarrow> agent list \<Rightarrow> agent list" where
  "updateAgent i f tbl = map (\<lambda>b. if agent_id b = i then f b else b) tbl"

text \<open>
  \<open>pickAgentRoundRobin\<close>, with \<open>now\<close> the value of its \<open>new Date()\<close>. It returns the row as
  read (before the update) and the updated table, or throws when no agent is active.
\<close>

definition pickAgentRoundRobin :: "int \<Rightarrow> agent list \<Rightarrow> failure + (agent \<times> agent list)" where
  "pickAgentRoundRobin now tbl =
     (case findFirstActive tbl of
        None \<Rightarrow> Inl NoActiveAgents
      | Some a \<Rightarrow>
          Inr (a, updateAgent (agent_id a)
                    (\<lambda>b. b\<lparr>lastAssignedAt := Some now, assignedCount := assignedCount b + 1\<rparr>) tbl))"

text \<open>
  Consecutive calls, one per clock reading, each on the table the call before left. The
  result lists the agents returned, in call order.
\<close>

fun pickAgents :: "int list \<Rightarrow> agent list \<Rightarrow> failure + (agent list \<times> agent list)" where
  "pickAgents [] tbl = Inr ([], tbl)"
| "pickAgents (now # nows) tbl =
     (case pickAgentRoundRobin now tbl of
        Inl e \<Rightarrow> Inl e
      | Inr (a, tbl') \<Rightarrow>
          (case pickAgents nows tbl' of
             Inl e \<Rightarrow> Inl e
           | Inr (picked, tbl'') \<Rightarrow> Inr (a # picked, tbl'')))"

text \<open>The names of the agents that consecutive calls return.\<close>

definition namesPicked :: "int list \<Rightarrow> agent list \<Rightarrow> string list option" where
  "namesPicked nows tbl =
     (case pickAgents nows tbl of
        Inl e \<Rightarrow> None
      | Inr (picked, tbl') \<Rightarrow> Some (map agent_name picked))"

section \<open>Message processor (worker/processor.ts)\<close>

datatype status = PROCESSING | SUCCESS | FAILED

record processedMessage =
  pm_attempts :: nat
  pm_lastAttemptAt :: int
  pm_status :: status
  pm_errorLog :: "string option"

datatype leadSource = Zillow | Realtor | Facebook | Generic | Unknown

record leadData =
  ld_email :: string
  ld_firstName :: "string option"
  ld_lastName :: "string option"
  ld_phone :: "string option"
  ld_source :: leadSource
  ld_rawData :: "(string \<times> string) list"

record lead =
  lead_id :: nat
  lead_email :: string
  lead_firstName :: "string option"
  lead_lastName :: "string option"
  lead_phone :: "string option"
  lead_source :: leadSource
  sourceMessage :: string
  assignedAgentId :: nat
  assignedAt :: int
  replySentAt :: "int option"

record sendParams =
  sp_to :: string
  sp_from :: string
  sp_subject :: string
  sp_agentName :: string
  sp_bookingUrl :: string

record processResult =
  pr_messageId :: string
  pr_success :: bool
  pr_leadId :: "nat option"
  pr_agentName :: "string option"
  pr_error :: "string option"

text \<open>
  The collaborators outside the store: \<open>extractLeadData\<close> (fetching the message from the
  mailbox and parsing it), \<open>sendLeadReply\<close> (the outbound transport) and the mailbox call
  that removes the \<open>UNREAD\<close> label. Each either answers or throws a value. The engine gives
  an \<open>Error\<close> constructed with a message its \<open>stack\<close> property (\<open>newErrorStack\<close>). The two
  sender settings come from the process environment.
\<close>

record env =
  extractLeadData :: "string \<Rightarrow> thrown + leadData"
  sendLeadReply :: "sendParams \<Rightarrow> thrown + string"
  markRead :: "string \<Rightarrow> thrown option"
  newErrorStack :: "string \<Rightarrow> string option"
  SENDER_EMAIL :: string
  SENDER_NAME :: string

text \<open>The values that the calls of \<open>new Date()\<close> read during one invocation.\<close>

record clock =
  t_attempt :: int
  t_pick :: int
  t_assigned :: int
  t_reply :: int

text \<open>
  What an invocation does to the world outside its own variables is recorded in order:
  writes to the store and calls to the collaborators.
\<close>

datatype effect =
    ProcessedWritten string processedMessage
  | ExtractCalled string
  | PickAgentCalled
  | LeadUpserted string
  | SendCalled sendParams
  | ReplySentWritten nat
  | MarkReadCalled string
  | NotifyCalled string string nat

record world =
  processedMessages :: "string \<rightharpoonup> processedMessage"
  leads :: "lead list"
  agents :: "agent list"
  effects :: "effect list"

definition logEffect :: "effect \<Rightarrow> world \<Rightarrow> world" where
  "logEffect e w = w\<lparr>effects := effects w @ [e]\<rparr>"

text \<open>
  Modelled from the spec: the column defaults of a new row, for the columns that the
  create branches do not set. The schema is not among the sources; the spec's data model
  has the error detail present only when the status is \<open>FAILED\<close>, and the reply-sent
  timestamp null until a reply has been dispatched.
\<close>

definition defaultErrorLog :: "string option" where
  "defaultErrorLog = None"

definition defaultReplySentAt :: "int option" where
  "defaultReplySentAt = None"

declare defaultErrorLog_def [simp] defaultReplySentAt_def [simp]

text \<open>
  Step 1, \<open>prisma.processedMessage.upsert\<close>: the update branch writes the counter computed
  from the earlier read and clears the error log, the create branch writes 1.
\<close>

definition upsertProcessing :: "string \<Rightarrow> nat \<Rightarrow> int \<Rightarrow> world \<Rightarrow> world" where
  "upsertProcessing messageId attempts now w =
     (let row = (case processedMessages w messageId of
                   Some r \<Rightarrow> r\<lparr>pm_attempts := attempts, pm_lastAttemptAt := now,
                               pm_status := PROCESSING, pm_errorLog := None\<rparr>
                 | None \<Rightarrow> \<lparr>pm_attempts = 1, pm_lastAttemptAt = now,
                               pm_status = PROCESSING, pm_errorLog = defaultErrorLog\<rparr>)
      in logEffect (ProcessedWritten messageId row)
           (w\<lparr>processedMessages := (processedMessages w)(messageId \<mapsto> row)\<rparr>))"

text \<open>
  \<open>prisma.processedMessage.update\<close> of status and error log. It is only called after the
  upsert of step 1, so the row exists.
\<close>

definition updateProcessed :: "string \<Rightarrow> status \<Rightarrow> string option \<Rightarrow> world \<Rightarrow> world" where
  "updateProcessed messageId st err w =
     (case processedMessages w messageId of
        Some r \<Rightarrow>
          (let row = r\<lparr>pm_status := st, pm_errorLog := err\<rparr>
           in logEffect (ProcessedWritten messageId row)
                (w\<lparr>processedMessages := (processedMessages w)(messageId \<mapsto> row)\<rparr>))
      | None \<Rightarrow> w)"

text \<open>The operator \<open>a ?? b\<close>.\<close>

definition nullish :: "'a option \<Rightarrow> 'a option \<Rightarrow> 'a option" where
  "nullish a b = (case a of Some v \<Rightarrow> Some v | None \<Rightarrow> b)"

text \<open>\<open>prisma.lead.findUnique({ where: { email } })\<close>.\<close>

definition findLead :: "string \<Rightarrow> lead list \<Rightarrow> lead option" where
  "findLead e tbl = find (\<lambda>l. lead_email l = e) tbl"

definition freshLeadId :: "lead list \<Rightarrow> nat" where
  "freshLeadId tbl = Suc (fold max (map lead_id tbl) 0)"

text \<open>
  Step 4, \<open>prisma.lead.upsert\<close> keyed by the email. The update branch takes its name and
  phone values from the candidate, falling back to the row read before
  (\<open>existingLead\<close>); it does not write \<open>replySentAt\<close>. The create branch appends a row
  and does not set \<open>replySentAt\<close> either. The result is the row as written and the table.
\<close>

definition upsertLead ::
  "leadData \<Rightarrow> lead option \<Rightarrow> string \<Rightarrow> nat \<Rightarrow> int \<Rightarrow> lead list \<Rightarrow> lead \<times> lead list" where
  "upsertLead ld existingLead messageId agentId now tbl =
     (let upd = (\<lambda>row. row\<lparr>
            lead_firstName := nullish (ld_firstName ld) (Option.bind existingLead lead_firstName),
            lead_lastName := nullish (ld_lastName ld) (Option.bind existingLead lead_lastName),
            lead_phone := nullish (ld_phone ld) (Option.bind existingLead lead_phone),
            lead_source := ld_source ld,
            sourceMessage := messageId,
            assignedAgentId := agentId,
            assignedAt := now\<rparr>)
      in case findLead (ld_email ld) tbl of
           Some row \<Rightarrow>
             (upd row, map (\<lambda>l. if lead_email l = ld_email ld then upd l else l) tbl)
         | None \<Rightarrow>
             (let row = \<lparr>lead_id = freshLeadId tbl, lead_email = ld_email ld,
                         lead_firstName = ld_firstName ld, lead_lastName = ld_lastName ld,
                         lead_phone = ld_phone ld, lead_source = ld_source ld,
                         sourceMessage = messageId, assignedAgentId = agentId,
                         assignedAt = now, replySentAt = defaultReplySentAt\<rparr>
              in (row, tbl @ [row])))"

text \<open>\<open>agent.bookingUrl || "https://calendly.com/your-company"\<close>.\<close>

definition bookingUrlOrDefault :: "agent \<Rightarrow> string" where
  "bookingUrlOrDefault a =
     (case bookingUrl a of
        None \<Rightarrow> ''https://calendly.com/your-company''
      | Some u \<Rightarrow> if u = [] then ''https://calendly.com/your-company'' else u)"

definition replyParams :: "env \<Rightarrow> agent \<Rightarrow> lead \<Rightarrow> sendParams" where
  "replyParams en a upsertedLead =
     \<lparr>sp_to = lead_email upsertedLead,
      sp_from = SENDER_NAME en @ '' <'' @ SENDER_EMAIL en @ ''>'',
      sp_subject = ''Got it. Here's the next step'',
      sp_agentName = agent_name a,
      sp_bookingUrl = bookingUrlOrDefault a\<rparr>"

text \<open>
  Step 5: the reply is sent only when the upserted lead has no reply-sent timestamp, and
  the timestamp is written (by lead id) once the send has returned.
\<close>

definition replyStep :: "env \<Rightarrow> clock \<Rightarrow> agent \<Rightarrow> lead \<Rightarrow> world \<Rightarrow> failure option \<times> world" where
  "replyStep en clk a upsertedLead w =
     (if replySentAt upsertedLead = None then
        (let w1 = logEffect (SendCalled (replyParams en a upsertedLead)) w
         in case sendLeadReply en (replyParams en a upsertedLead) of
              Inl e \<Rightarrow> (Some (ReplyFailed e), w1)
            | Inr _ \<Rightarrow>
                (None, logEffect (ReplySentWritten (lead_id upsertedLead))
                   (w1\<lparr>leads := map (\<lambda>l. if lead_id l = lead_id upsertedLead
                                            then l\<lparr>replySentAt := Some (t_reply clk)\<rparr> else l)
                                     (leads w1)\<rparr>)))
      else (None, w))"

text \<open>
  The body of the \<open>try\<close> block, steps 2 to 7, written from its end. A throw leaves what
  was written before it in place.

  Steps 6 and 7: the Processing Record is marked \<open>SUCCESS\<close>, then the mailbox is told to
  remove the \<open>UNREAD\<close> label.
\<close>

definition finishSteps ::
  "env \<Rightarrow> string \<Rightarrow> lead \<Rightarrow> agent \<Rightarrow> world \<Rightarrow> (failure + lead \<times> agent) \<times> world" where
  "finishSteps en messageId upsertedLead a w =
     (let w1 = updateProcessed messageId SUCCESS None w;
          w2 = logEffect (MarkReadCalled messageId) w1
      in case markRead en messageId of
           Some e \<Rightarrow> (Inl (MarkReadFailed e), w2)
         | None \<Rightarrow> (Inr (upsertedLead, a), w2))"

text \<open>Steps 4 and 5: the lead is read and upserted, then the reply step runs.\<close>

definition leadSteps ::
  "env \<Rightarrow> clock \<Rightarrow> string \<Rightarrow> leadData \<Rightarrow> agent \<Rightarrow> world \<Rightarrow> (failure + lead \<times> agent) \<times> world" where
  "leadSteps en clk messageId ld a w =
     (let existingLead = findLead (ld_email ld) (leads w);
          up = upsertLead ld existingLead messageId (agent_id a) (t_assigned clk) (leads w);
          upsertedLead = fst up;
          w1 = logEffect (LeadUpserted (ld_email ld)) (w\<lparr>leads := snd up\<rparr>)
      in case replyStep en clk a upsertedLead w1 of
           (Some e, w2) \<Rightarrow> (Inl e, w2)
         | (None, w2) \<Rightarrow> finishSteps en messageId upsertedLead a w2)"

text \<open>Step 3: the agent is picked.\<close>

definition assignSteps ::
  "env \<Rightarrow> clock \<Rightarrow> string \<Rightarrow> leadData \<Rightarrow> world \<Rightarrow> (failure + lead \<times> agent) \<times> world" where
  "assignSteps en clk messageId ld w =
     (let w1 = logEffect PickAgentCalled w
      in case pickAgentRoundRobin (t_pick clk) (agents w1) of
           Inl e \<Rightarrow> (Inl e, w1)
         | Inr (a, tbl) \<Rightarrow> leadSteps en clk messageId ld a (w1\<lparr>agents := tbl\<rparr>))"

text \<open>Step 2: the lead is extracted from the message.\<close>

definition tryBody :: "env \<Rightarrow> clock \<Rightarrow> string \<Rightarrow> world \<Rightarrow> (failure + lead \<times> agent) \<times> world" where
  "tryBody en clk messageId w =
     (let w1 = logEffect (ExtractCalled messageId) w
      in case extractLeadData en messageId of
           Inl e \<Rightarrow> (Inl (ExtractionFailed e), w1)
         | Inr ld \<Rightarrow> assignSteps en clk messageId ld w1)"

text \<open>
  The value that the catch clause receives. \<open>new Error(message)\<close> has the given message, the
  stack of the engine, and is rendered as \<open>Error: message\<close>.
\<close>

definition newError :: "env \<Rightarrow> string \<Rightarrow> thrown" where
  "newError en msg =
     \<lparr>err_stack = newErrorStack en msg, err_message = Some msg, err_string = ''Error: '' @ msg\<rparr>"

fun caught :: "env \<Rightarrow> failure \<Rightarrow> thrown" where
  "caught en NoActiveAgents =
     newError en ''No active agents available for assignment. Please add agents to the database.''"
| "caught en (ExtractionFailed e) = e"
| "caught en (ReplyFailed e) = e"
| "caught en (MarkReadFailed e) = e"

text \<open>\<open>a || b\<close> on a string property: an absent or empty \<open>a\<close> gives \<open>b\<close>.\<close>

fun orElse :: "string option \<Rightarrow> string \<Rightarrow> string" where
  "orElse None b = b"
| "orElse (Some a) b = (if a = [] then b else a)"

text \<open>\<open>error?.stack || error?.message || String(error)\<close>.\<close>

definition errorMessage :: "env \<Rightarrow> failure \<Rightarrow> string" where
  "errorMessage en err =
     (let error = caught en err
      in orElse (err_stack error) (orElse (err_message error) (err_string error)))"

definition processMessage :: "env \<Rightarrow> clock \<Rightarrow> string \<Rightarrow> world \<Rightarrow> processResult \<times> world" where
  "processMessage en clk messageId w =
     (let existingEntry = processedMessages w messageId;
          attempts = (case existingEntry of None \<Rightarrow> 0 | Some r \<Rightarrow> pm_attempts r) + 1;
          w1 = upsertProcessing messageId attempts (t_attempt clk) w
      in case tryBody en clk messageId w1 of
           (Inr (upsertedLead, a), w2) \<Rightarrow>
             (\<lparr>pr_messageId = messageId, pr_success = True,
               pr_leadId = Some (lead_id upsertedLead),
               pr_agentName = Some (agent_name a), pr_error = None\<rparr>, w2)
         | (Inl err, w2) \<Rightarrow>
             (let w3 = updateProcessed messageId FAILED (Some (errorMessage en err)) w2;
                  w4 = logEffect (NotifyCalled messageId (errorMessage en err) attempts) w3
              in (\<lparr>pr_messageId = messageId, pr_success = False, pr_leadId = None,
                   pr_agentName = None, pr_error = Some (errorMessage en err)\<rparr>, w4)))"

text \<open>A sequence of invocations, each with its own collaborators' answers and clock.\<close>

fun processAll :: "(env \<times> clock \<times> string) list \<Rightarrow> world \<Rightarrow> world" where
  "processAll [] w = w"
| "processAll ((en, clk, messageId) # calls) w =
     processAll calls (snd (processMessage en clk messageId w))"

definition attemptsOf :: "world \<Rightarrow> string \<Rightarrow> nat" where
  "attemptsOf w messageId =
     (case processedMessages w messageId of None \<Rightarrow> 0 | Some r \<Rightarrow> pm_attempts r)"

text \<open>The number of calls to the outbound transport recorded so far.\<close>

definition sendCount :: "world \<Rightarrow> nat" where
  "sendCount w = length (filter (\<lambda>e. case e of SendCalled _ \<Rightarrow> True | _ \<Rightarrow> False) (effects w))"

subsection \<open>A small world for examples\<close>

text \<open>
  One active agent, one message \<open>m1\<close> from which the lead \<open>john@example.com\<close> is
  extracted, collaborators that always answer. In \<open>example_world\<close> the lead is new; in
  \<open>example_world_replied\<close> it exists already and has been replied to (as after an earlier
  message from the same sender).
\<close>

definition example_agent :: agent where
  "example_agent = \<lparr>agent_id = 1, agent_name = ''Sarah Johnson'', agent_email = ''sarah@example.com'',
     agent_phone = Some ''(555) 123-4567'', isActive = True, bookingUrl = Some ''https://calendly.com/sarah-johnson'',
     assignedCount = 0, lastAssignedAt = None\<rparr>"

definition example_leadData :: leadData where
  "example_leadData = \<lparr>ld_email = ''john@example.com'', ld_firstName = Some ''John'',
     ld_lastName = None, ld_phone = Some ''5551234567'', ld_source = Generic, ld_rawData = []\<rparr>"

definition example_lead :: lead where
  "example_lead = \<lparr>lead_id = 7, lead_email = ''john@example.com'', lead_firstName = Some ''Johnny'',
     lead_lastName = Some ''Smith'', lead_phone = None, lead_source = Zillow,
     sourceMessage = ''m0'', assignedAgentId = 1, assignedAt = 400, replySentAt = Some 500\<rparr>"

definition example_env :: env where
  "example_env = \<lparr>extractLeadData = (\<lambda>m. if m = ''m1'' then Inr example_leadData
        else Inl \<lparr>err_stack = None, err_message = Some ''No raw payload'',
                 err_string = ''Error: No raw payload''\<rparr>),
     sendLeadReply = (\<lambda>p. Inr ''sent-1''), markRead = (\<lambda>m. None),
     newErrorStack = (\<lambda>msg. Some (''Error: '' @ msg)),
     SENDER_EMAIL = ''leads@example.com'', SENDER_NAME = ''Your Company''\<rparr>"

definition example_clock :: clock where
  "example_clock = \<lparr>t_attempt = 1000, t_pick = 1001, t_assigned = 1002, t_reply = 1003\<rparr>"

definition example_world :: world where
  "example_world = \<lparr>processedMessages = Map.empty, leads = [], agents = [example_agent], effects = []\<rparr>"

definition example_world_replied :: world where
  "example_world_replied =
     \<lparr>processedMessages = Map.empty, leads = [example_lead], agents = [example_agent], effects = []\<rparr>"

text \<open>
  A roster of four: Mike is inactive, Emily was never assigned, Dana and Sarah were, Dana
  longer ago.
\<close>

definition example_roster :: "agent list" where
  "example_roster =
     [example_agent\<lparr>lastAssignedAt := Some 300\<rparr>,
      \<lparr>agent_id = 2, agent_name = ''Mike Chen'', agent_email = ''mike@example.com'',
       agent_phone = None, isActive = False, bookingUrl = None,
       assignedCount = 0, lastAssignedAt = None\<rparr>,
      \<lparr>agent_id = 3, agent_name = ''Emily Davis'', agent_email = ''emily@example.com'',
       agent_phone = None, isActive = True, bookingUrl = None,
       assignedCount = 0, lastAssignedAt = None\<rparr>,
      \<lparr>agent_id = 4, agent_name = ''Dana Lee'', agent_email = ''dana@example.com'',
       agent_phone = None, isActive = True, bookingUrl = None,
       assignedCount = 2, lastAssignedAt = Some 100\<rparr>]"

text \<open>
  A roster of two active agents, one of them with a stored timestamp that is ahead of the
  clock readings used below.
\<close>

definition example_roster_ahead :: "agent list" where
  "example_roster_ahead =
     [\<lparr>agent_id = 4, agent_name = ''Dana Lee'', agent_email = ''dana@example.com'',
       agent_phone = None, isActive = True, bookingUrl = None,
       assignedCount = 2, lastAssignedAt = Some 100\<rparr>,
      example_agent\<lparr>lastAssignedAt := Some 5000\<rparr>]"

section \<open>Base64url (gmail/base64url.ts)\<close>

text \<open>
  A \<open>Buffer\<close> is a list of bytes. \<open>buf.toString("base64")\<close> and
  \<open>Buffer.from(s, "base64")\<close> belong to the Node runtime; they are modelled as Node
  documents and implements them: the encoder writes RFC 4648 base64 with padding; the
  decoder reads up to the first \<open>=\<close>, skips every character outside the alphabet,
  accepts \<open>-\<close> and \<open>_\<close> for 62 and 63 as well, and decodes a last group of two or
  three characters to one or two bytes.
\<close>

type_synonym byte = "8 word"

definition b64chars :: string where
  "b64chars = ''ABCDEFGHIJKLMNOPQRSTUVWXYZabcdefghijklmnopqrstuvwxyz0123456789+/''"

definition b64char :: "nat \<Rightarrow> char" where
  "b64char n = b64chars ! n"

fun toBase64 :: "byte list \<Rightarrow> string" where
  "toBase64 (a # b # c # rest) =
     [b64char (unat a div 4),
      b64char ((unat a mod 4) * 16 + unat b div 16),
      b64char ((unat b mod 16) * 4 + unat c div 64),
      b64char (unat c mod 64)] @ toBase64 rest"
| "toBase64 [a, b] =
     [b64char (unat a div 4),
      b64char ((unat a mod 4) * 16 + unat b div 16),
      b64char ((unat b mod 16) * 4),
      CHR ''='']"
| "toBase64 [a] =
     [b64char (unat a div 4),
      b64char ((unat a mod 4) * 16),
      CHR ''='', CHR ''='']"
| "toBase64 [] = []"

fun indexOf :: "char \<Rightarrow> string \<Rightarrow> nat option" where
  "indexOf c [] = None"
| "indexOf c (x # xs) = (if c = x then Some 0 else map_option Suc (indexOf c xs))"

definition unbase64 :: "char \<Rightarrow> nat option" where
  "unbase64 c =
     (if c = CHR ''-'' then Some 62
      else if c = CHR ''_'' then Some 63
      else indexOf c b64chars)"

fun decodeGroups :: "nat list \<Rightarrow> byte list" where
  "decodeGroups (s1 # s2 # s3 # s4 # rest) =
     [of_nat (s1 * 4 + s2 div 16),
      of_nat ((s2 mod 16) * 16 + s3 div 4),
      of_nat ((s3 mod 4) * 64 + s4)] @ decodeGroups rest"
| "decodeGroups [s1, s2, s3] =
     [of_nat (s1 * 4 + s2 div 16), of_nat ((s2 mod 16) * 16 + s3 div 4)]"
| "decodeGroups [s1, s2] = [of_nat (s1 * 4 + s2 div 16)]"
| "decodeGroups [s1] = []"
| "decodeGroups [] = []"

definition fromBase64 :: "string \<Rightarrow> byte list" where
  "fromBase64 s = decodeGroups (List.map_filter unbase64 (takeWhile (\<lambda>c. c \<noteq> CHR ''='') s))"

text \<open>\<open>s.replace(/x/g, "y")\<close> for single characters, and \<open>s.replace(/=+$/g, "")\<close>.\<close>

definition replaceChar :: "char \<Rightarrow> char \<Rightarrow> string \<Rightarrow> string" where
  "replaceChar x y s = map (\<lambda>c. if c = x then y else c) s"

definition stripTrailingEquals :: "string \<Rightarrow> string" where
  "stripTrailingEquals s = rev (dropWhile (\<lambda>c. c = CHR ''='') (rev s))"

definition base64UrlToBuffer :: "string \<Rightarrow> byte list" where
  "base64UrlToBuffer b64url =
     (let b64 = replaceChar CHR ''_'' CHR ''/'' (replaceChar CHR ''-'' CHR ''+'' b64url);
          padded = b64 @ replicate ((4 - length b64 mod 4) mod 4) CHR ''=''
      in fromBase64 padded)"

definition bufferToBase64Url :: "byte list \<Rightarrow> string" where
  "bufferToBase64Url buf =
     stripTrailingEquals (replaceChar CHR ''/'' CHR ''_'' (replaceChar CHR ''+'' CHR ''-'' (toBase64 buf)))"


text \<open>The six-bit groups of a buffer, and the two replacements of the encoder in one.\<close>

fun sextets :: "byte list \<Rightarrow> nat list" where
  "sextets (a # b # c # rest) =
     [unat a div 4, (unat a mod 4) * 16 + unat b div 16,
      (unat b mod 16) * 4 + unat c div 64, unat c mod 64] @ sextets rest"
| "sextets [a, b] = [unat a div 4, (unat a mod 4) * 16 + unat b div 16, (unat b mod 16) * 4]"
| "sextets [a] = [unat a div 4, (unat a mod 4) * 16]"
| "sextets [] = []"

definition urlSafe :: "char \<Rightarrow> char" where
  "urlSafe c = (if c = CHR ''+'' then CHR ''-'' else if c = CHR ''/'' then CHR ''_'' else c)"

section \<open>Lead parser (parser/validators.ts, parser/parsers, parser/index.ts)\<close>

subsection \<open>More string operations\<close>

text \<open>
  \<open>s.toLowerCase()\<close> on the code units 0 to 255: the ASCII capitals and the Latin-1
  capitals \<open>0xC0\<close> to \<open>0xDE\<close> (without the multiplication sign \<open>0xD7\<close>) move up by 32.
\<close>

definition upperChars :: string where
  "upperChars = ''ABCDEFGHIJKLMNOPQRSTUVWXYZ'' @
     [CHR 0xC0, CHR 0xC1, CHR 0xC2, CHR 0xC3, CHR 0xC4, CHR 0xC5, CHR 0xC6, CHR 0xC7,
      CHR 0xC8, CHR 0xC9, CHR 0xCA, CHR 0xCB, CHR 0xCC, CHR 0xCD, CHR 0xCE, CHR 0xCF,
      CHR 0xD0, CHR 0xD1, CHR 0xD2, CHR 0xD3, CHR 0xD4, CHR 0xD5, CHR 0xD6,
      CHR 0xD8, CHR 0xD9, CHR 0xDA, CHR 0xDB, CHR 0xDC, CHR 0xDD, CHR 0xDE]"

definition lowerChars :: string where
  "lowerChars = ''abcdefghijklmnopqrstuvwxyz'' @
     [CHR 0xE0, CHR 0xE1, CHR 0xE2, CHR 0xE3, CHR 0xE4, CHR 0xE5, CHR 0xE6, CHR 0xE7,
      CHR 0xE8, CHR 0xE9, CHR 0xEA, CHR 0xEB, CHR 0xEC, CHR 0xED, CHR 0xEE, CHR 0xEF,
      CHR 0xF0, CHR 0xF1, CHR 0xF2, CHR 0xF3, CHR 0xF4, CHR 0xF5, CHR 0xF6,
      CHR 0xF8, CHR 0xF9, CHR 0xFA, CHR 0xFB, CHR 0xFC, CHR 0xFD, CHR 0xFE]"

definition toLowerChar :: "char \<Rightarrow> char" where
  "toLowerChar c = (case map_of (zip upperChars lowerChars) c of Some l \<Rightarrow> l | None \<Rightarrow> c)"

definition toLowerCase :: "string \<Rightarrow> string" where
  "toLowerCase s = map toLowerChar s"

text \<open>\<open>s.includes(sub)\<close>.\<close>

fun includesStr :: "string \<Rightarrow> string \<Rightarrow> bool" where
  "includesStr [] sub = (sub = [])"
| "includesStr (c # cs) sub = (startsWith (c # cs) sub \<or> includesStr cs sub)"

text \<open>\<open>[...new Set(xs)]\<close>: duplicates are dropped, the first occurrence keeps its place.\<close>

definition uniq :: "'a list \<Rightarrow> 'a list" where
  "uniq xs = rev (remdups (rev xs))"

text \<open>\<open>xs[0]\<close>, which is \<open>undefined\<close> on the empty array.\<close>

definition first :: "'a list \<Rightarrow> 'a option" where
  "first xs = (case xs of [] \<Rightarrow> None | x # _ \<Rightarrow> Some x)"

text \<open>The test \<open>!email\<close> for a string that may be \<open>undefined\<close>: the empty string is falsy too.\<close>

definition missing :: "string option \<Rightarrow> bool" where
  "missing e = (case e of None \<Rightarrow> True | Some s \<Rightarrow> s = [])"

subsection \<open>Regular expressions\<close>

text \<open>
  The fragment of JavaScript regular expressions that the email patterns use: character
  classes, sequence, alternation, greedy \<open>*\<close> and \<open>+\<close> on a class, the end anchor, and
  \<open>Mark\<close> for the opening parenthesis of a capture group that runs to the end of the
  pattern.
\<close>

datatype rx =
    Cls "char \<Rightarrow> bool"
  | Eps
  | Seq rx rx
  | Alt rx rx
  | StarC "char \<Rightarrow> bool"
  | PlusC "char \<Rightarrow> bool"
  | Mark
  | Eol

fun weight :: "rx \<Rightarrow> nat" where
  "weight (Seq a b) = 2 + weight a + weight b"
| "weight (Alt a b) = 1 + weight a + weight b"
| "weight r = 0"

text \<open>
  The backtracking matcher: \<open>matchHere k s mk\<close> matches the patterns \<open>k\<close> one after the
  other at the start of \<open>s\<close>. Alternatives are tried left to right; a greedy repetition
  takes as much as it can and gives back one character at a time. The result is the text
  left after the match and the text from the mark on.
\<close>

function (sequential) matchHere ::
  "rx list \<Rightarrow> string \<Rightarrow> string option \<Rightarrow> (string \<times> string option) option" where
  "matchHere [] s mk = Some (s, mk)"
| "matchHere (Cls p # k) s mk =
     (case s of [] \<Rightarrow> None | c # cs \<Rightarrow> if p c then matchHere k cs mk else None)"
| "matchHere (Eps # k) s mk = matchHere k s mk"
| "matchHere (Seq a b # k) s mk = matchHere (a # b # k) s mk"
| "matchHere (Alt a b # k) s mk =
     (case matchHere (a # k) s mk of Some r \<Rightarrow> Some r | None \<Rightarrow> matchHere (b # k) s mk)"
| "matchHere (StarC p # k) s mk =
     (case s of
        [] \<Rightarrow> matchHere k s mk
      | c # cs \<Rightarrow>
          if p c then
            (case matchHere (StarC p # k) cs mk of
               Some r \<Rightarrow> Some r
             | None \<Rightarrow> matchHere k s mk)
          else matchHere k s mk)"
| "matchHere (PlusC p # k) s mk =
     (case s of [] \<Rightarrow> None | c # cs \<Rightarrow> if p c then matchHere (StarC p # k) cs mk else None)"
| "matchHere (Mark # k) s mk = matchHere k s (Some s)"
| "matchHere (Eol # k) s mk = (if s = [] then matchHere k s mk else None)"
  by pat_completeness auto
termination
  by (relation "measures [\<lambda>(k, s, mk). length s, \<lambda>(k, s, mk). sum_list (map (\<lambda>r. Suc (weight r)) k)]")
     auto

text \<open>
  The leftmost match: the pattern is tried at every position from the left. The result is
  the text from the start of the match, the text left after it and the text from the mark.
\<close>

fun search :: "rx list \<Rightarrow> string \<Rightarrow> (string \<times> string \<times> string option) option" where
  "search k [] = (case matchHere k [] None of Some (r, mk) \<Rightarrow> Some ([], r, mk) | None \<Rightarrow> None)"
| "search k (c # cs) =
     (case matchHere k (c # cs) None of
        Some (r, mk) \<Rightarrow> Some (c # cs, r, mk)
      | None \<Rightarrow> search k cs)"

text \<open>The text between a position \<open>from\<close> and a later position \<open>rest\<close> of the same string.\<close>

definition upTo :: "string \<Rightarrow> string \<Rightarrow> string" where
  "upTo from rest = take (length from - length rest) from"

text \<open>\<open>text.match(re)[1]\<close> for a pattern without the \<open>g\<close> flag: the capture of the leftmost match.\<close>

definition matchGroup1 :: "rx list \<Rightarrow> string \<Rightarrow> string option" where
  "matchGroup1 k s =
     (case search k s of
        Some (start, rest, Some from) \<Rightarrow> Some (upTo from rest)
      | _ \<Rightarrow> None)"

text \<open>\<open>re.test(s)\<close> for a pattern that starts with \<open>^\<close>: only the start of \<open>s\<close> is tried.\<close>

definition testAtStart :: "rx list \<Rightarrow> string \<Rightarrow> bool" where
  "testAtStart k s = (matchHere k s None \<noteq> None)"

text \<open>A literal, and a literal under the \<open>i\<close> flag.\<close>

definition chr :: "char \<Rightarrow> rx" where
  "chr x = Cls (\<lambda>c. c = x)"

definition liti :: "string \<Rightarrow> rx" where
  "liti s = foldr (\<lambda>x r. Seq (Cls (\<lambda>c. toLowerChar c = toLowerChar x)) r) s Eps"

text \<open>The classes \<open>[^\s@]\<close>, \<open>[a-zA-Z0-9._%+-]\<close>, \<open>[a-zA-Z0-9.-]\<close> and \<open>[a-zA-Z]\<close>.\<close>

definition isAddrChar :: "char \<Rightarrow> bool" where
  "isAddrChar c = (\<not> isSpace c \<and> c \<noteq> CHR ''@'')"

definition isLetter :: "char \<Rightarrow> bool" where
  "isLetter c = (c \<in> set ''abcdefghijklmnopqrstuvwxyzABCDEFGHIJKLMNOPQRSTUVWXYZ'')"

definition isLocalChar :: "char \<Rightarrow> bool" where
  "isLocalChar c = (isLetter c \<or> isDigit c \<or> c \<in> set ''._%+-'')"

definition isDomainChar :: "char \<Rightarrow> bool" where
  "isDomainChar c = (isLetter c \<or> isDigit c \<or> c \<in> set ''.-'')"

text \<open>The body \<open>[^\s@]+@[^\s@]+\.[^\s@]+\<close> shared by the validity check and the labeled patterns.\<close>

definition addrShape :: "rx list" where
  "addrShape = [PlusC isAddrChar, chr CHR ''@'', PlusC isAddrChar, chr CHR ''.'', PlusC isAddrChar]"

subsection \<open>validators.ts\<close>

definition isValidEmail :: "string \<Rightarrow> bool" where
  "isValidEmail email = testAtStart (addrShape @ [Eol]) (toLowerCase (trim email))"

text \<open>The pattern \<open>/[a-zA-Z0-9._%+-]+@[a-zA-Z0-9.-]+\.[a-zA-Z]{2,}/g\<close>.\<close>

definition emailRegex :: "rx list" where
  "emailRegex = [PlusC isLocalChar, chr CHR ''@'', PlusC isDomainChar, chr CHR ''.'',
                 Cls isLetter, PlusC isLetter]"

text \<open>
  \<open>text.match(re)\<close> for a pattern with the \<open>g\<close> flag: all matches from left to right, each
  search starting where the match before ended (one further after an empty match). A match
  ends inside the text, so the two length tests always succeed; they are there to make the
  recursion terminate by construction.
\<close>

fun matchAll :: "rx list \<Rightarrow> string \<Rightarrow> string list" where
  "matchAll k s =
     (case search k s of
        None \<Rightarrow> []
      | Some (start, rest, mk) \<Rightarrow>
          upTo start rest #
          (if rest = start then
             (case start of
                [] \<Rightarrow> []
              | _ # later \<Rightarrow> if length later < length s then matchAll k later else [])
           else if length rest < length s then matchAll k rest else []))"

declare matchAll.simps [simp del]

definition extractEmails :: "string \<Rightarrow> string list" where
  "extractEmails text = uniq (map toLowerCase (matchAll emailRegex text))"

subsection \<open>The recognizers\<close>

text \<open>
  A recognizer returns a candidate or no match. Whether it matches, and which email it
  reports, depends only on its signature test and its email patterns. The name, the phone
  and the extra fields of the candidate are extracted by further patterns that can neither
  fail nor change the email; they are a parameter here: a function from the source, the
  text, the subject and the chosen email to those fields.
\<close>

record otherFields =
  of_firstName :: "string option"
  of_lastName :: "string option"
  of_phone :: "string option"
  of_rawData :: "(string \<times> string) list"

type_synonym fieldExtractor = "leadSource \<Rightarrow> string \<Rightarrow> string \<Rightarrow> string \<Rightarrow> otherFields"

definition candidate :: "fieldExtractor \<Rightarrow> leadSource \<Rightarrow> string \<Rightarrow> string \<Rightarrow> string \<Rightarrow> leadData" where
  "candidate fx src text subject email =
     \<lparr>ld_email = email,
      ld_firstName = of_firstName (fx src text subject email),
      ld_lastName = of_lastName (fx src text subject email),
      ld_phone = of_phone (fx src text subject email),
      ld_source = src,
      ld_rawData = of_rawData (fx src text subject email)\<rparr>"

text \<open>
  A labeled email pattern \<open>/(?:label1|label2|...):\s*([^\s@]+@[^\s@]+\.[^\s@]+)/i\<close>.
\<close>

definition labeledEmail :: "string list \<Rightarrow> rx list" where
  "labeledEmail labels =
     [foldr (\<lambda>l r. Alt (liti l) r) (butlast labels) (liti (last labels)),
      chr CHR '':'', StarC isSpace, Mark] @ addrShape"

text \<open>
  The loop over the labeled patterns: the first pattern that matches with a valid capture
  gives the email, lower-cased.
\<close>

fun firstLabeledEmail :: "rx list list \<Rightarrow> string \<Rightarrow> string option" where
  "firstLabeledEmail [] text = None"
| "firstLabeledEmail (pattern # patterns) text =
     (case matchGroup1 pattern text of
        Some m1 \<Rightarrow>
          if isValidEmail m1 then Some (toLowerCase m1) else firstLabeledEmail patterns text
      | None \<Rightarrow> firstLabeledEmail patterns text)"

text \<open>
  The shape shared by the three source-specific recognizers: signature test, labeled
  patterns, then the addresses extracted from the text without the excluded ones.
\<close>

definition recognize ::
  "fieldExtractor \<Rightarrow> leadSource \<Rightarrow> bool \<Rightarrow> rx list list \<Rightarrow> (string \<Rightarrow> bool) \<Rightarrow>
   string \<Rightarrow> string \<Rightarrow> leadData option" where
  "recognize fx src signature emailPatterns keep text subject =
     (if \<not> signature then None
      else
        (let labeled = firstLabeledEmail emailPatterns text;
             email = (if missing labeled then first (filter keep (extractEmails text)) else labeled)
         in if missing email then None else Some (candidate fx src text subject (the email))))"

definition isZillow :: "string \<Rightarrow> string \<Rightarrow> bool" where
  "isZillow text subject =
     (includesStr (toLowerCase subject) ''zillow'' \<or>
      includesStr (toLowerCase text) ''zillow.com'' \<or>
      includesStr (toLowerCase text) ''from zillow'')"

definition zillowEmailPatterns :: "rx list list" where
  "zillowEmailPatterns = [labeledEmail [''Email'', ''E-mail'', ''Contact Email'']]"

definition zillowKeep :: "string \<Rightarrow> bool" where
  "zillowKeep e = (\<not> includesStr e ''zillow'' \<and> \<not> includesStr e ''zillowgroup'')"

definition parseZillowLead :: "fieldExtractor \<Rightarrow> string \<Rightarrow> string \<Rightarrow> leadData option" where
  "parseZillowLead fx text subject =
     recognize fx Zillow (isZillow text subject) zillowEmailPatterns zillowKeep text subject"

definition isRealtor :: "string \<Rightarrow> string \<Rightarrow> bool" where
  "isRealtor text subject =
     (includesStr (toLowerCase subject) ''realtor.com'' \<or>
      includesStr (toLowerCase subject) ''realtor lead'' \<or>
      includesStr (toLowerCase text) ''realtor.com'' \<or>
      includesStr (toLowerCase text) ''move.com'')"

definition realtorEmailPatterns :: "rx list list" where
  "realtorEmailPatterns =
     [labeledEmail [''Email'', ''E-mail''], labeledEmail [''Contact'', ''Reply to'']]"

definition realtorKeep :: "string \<Rightarrow> bool" where
  "realtorKeep e =
     (\<not> includesStr e ''realtor.com'' \<and> \<not> includesStr e ''move.com'' \<and> \<not> includesStr e ''noreply'')"

definition parseRealtorLead :: "fieldExtractor \<Rightarrow> string \<Rightarrow> string \<Rightarrow> leadData option" where
  "parseRealtorLead fx text subject =
     recognize fx Realtor (isRealtor text subject) realtorEmailPatterns realtorKeep text subject"

definition isFacebook :: "string \<Rightarrow> string \<Rightarrow> bool" where
  "isFacebook text subject =
     (includesStr (toLowerCase subject) ''facebook'' \<or>
      includesStr (toLowerCase subject) ''new lead from'' \<or>
      includesStr (toLowerCase text) ''facebook.com'' \<or>
      includesStr (toLowerCase text) ''fb.com'' \<or>
      includesStr (toLowerCase text) ''lead ad'')"

definition facebookEmailPatterns :: "rx list list" where
  "facebookEmailPatterns = [labeledEmail [''email'', ''e-mail'', ''email_address'']]"

definition facebookKeep :: "string \<Rightarrow> bool" where
  "facebookKeep e =
     (\<not> includesStr e ''facebook'' \<and> \<not> includesStr e ''fb.com'' \<and> \<not> includesStr e ''facebookmail'')"

definition parseFacebookLead :: "fieldExtractor \<Rightarrow> string \<Rightarrow> string \<Rightarrow> leadData option" where
  "parseFacebookLead fx text subject =
     recognize fx Facebook (isFacebook text subject) facebookEmailPatterns facebookKeep text subject"

text \<open>The fallback has no signature test and no labeled email pattern.\<close>

definition genericKeep :: "string \<Rightarrow> bool" where
  "genericKeep e =
     (\<not> includesStr e ''noreply'' \<and> \<not> includesStr e ''no-reply'' \<and> \<not> includesStr e ''donotreply''
      \<and> \<not> includesStr e ''mailer-daemon'' \<and> \<not> includesStr e ''postmaster'')"

definition parseGenericLead :: "fieldExtractor \<Rightarrow> string \<Rightarrow> string \<Rightarrow> leadData option" where
  "parseGenericLead fx text subject =
     (let emails = extractEmails text;
          leadEmails = filter genericKeep emails
      in case leadEmails of
           [] \<Rightarrow> None
         | email # _ \<Rightarrow> Some (candidate fx Generic text subject email))"

subsection \<open>parser/index.ts\<close>

type_synonym leadParser = "fieldExtractor \<Rightarrow> string \<Rightarrow> string \<Rightarrow> leadData option"

definition parsers :: "leadParser list" where
  "parsers = [parseZillowLead, parseRealtorLead, parseFacebookLead, parseGenericLead]"

datatype parseError = NoValidEmail

text \<open>The loop of \<open>parseLeadFromText\<close> over a list of recognizers, and the function itself.\<close>

fun tryParsers :: "leadParser list \<Rightarrow> fieldExtractor \<Rightarrow> string \<Rightarrow> string \<Rightarrow> parseError + leadData" where
  "tryParsers [] fx text subject = Inl NoValidEmail"
| "tryParsers (parser # rest) fx text subject =
     (case parser fx text subject of
        Some result \<Rightarrow>
          if isValidEmail (ld_email result) then Inr result else tryParsers rest fx text subject
      | None \<Rightarrow> tryParsers rest fx text subject)"

definition parseLeadFromText :: "fieldExtractor \<Rightarrow> string \<Rightarrow> string \<Rightarrow> parseError + leadData" where
  "parseLeadFromText fx text subject = tryParsers parsers fx text subject"

text \<open>A recognizer's answer that the loop accepts: a candidate whose email is valid.\<close>

definition usable :: "leadData option \<Rightarrow> bool" where
  "usable r = (case r of None \<Rightarrow> False | Some ld \<Rightarrow> isValidEmail (ld_email ld))"

text \<open>
  A text contains an email-shaped substring when part of it reads \<open>local@domain.tld\<close>:
  three non-empty runs without white space or \<open>@\<close>, joined by \<open>@\<close> and a dot.
\<close>

definition hasEmailShape :: "string \<Rightarrow> bool" where
  "hasEmailShape text =
     (\<exists>before l d t after.
        text = before @ l @ ''@'' @ d @ ''.'' @ t @ after
        \<and> l \<noteq> [] \<and> d \<noteq> [] \<and> t \<noteq> []
        \<and> (\<forall>c \<in> set (l @ d @ t). isAddrChar c))"

text \<open>A text that is email-shaped as a whole.\<close>

definition shaped :: "string \<Rightarrow> bool" where
  "shaped x = (\<exists>l d t. x = l @ ''@'' @ d @ ''.'' @ t \<and> l \<noteq> [] \<and> d \<noteq> [] \<and> t \<noteq> []
                 \<and> (\<forall>c \<in> set (l @ d @ t). isAddrChar c))"

text \<open>The meaning of a pattern: the set of texts it can match.\<close>

fun lang :: "rx \<Rightarrow> string set" where
  "lang (Cls p) = {[c] | c. p c}"
| "lang Eps = {[]}"
| "lang (Seq a b) = {x @ y | x y. x \<in> lang a \<and> y \<in> lang b}"
| "lang (Alt a b) = lang a \<union> lang b"
| "lang (StarC p) = {x. \<forall>c \<in> set x. p c}"
| "lang (PlusC p) = {x. x \<noteq> [] \<and> (\<forall>c \<in> set x. p c)}"
| "lang Mark = {[]}"
| "lang Eol = {[]}"

fun langs :: "rx list \<Rightarrow> string set" where
  "langs [] = {[]}"
| "langs (r # k) = {x @ y | x y. x \<in> lang r \<and> y \<in> langs k}"

text \<open>Field extractors and texts for examples.\<close>

definition example_fields :: fieldExtractor where
  "example_fields = (\<lambda>src text subject email.
     \<lparr>of_firstName = None, of_lastName = None, of_phone = None, of_rawData = []\<rparr>)"

definition example_generic_text :: string where
  "example_generic_text =
     ''Name: John Smith'' @ [CHR 0x0A] @ ''Email: JOHN@Example.com'' @ [CHR 0x0A]
       @ ''Phone: 555-123-4567''"

section \<open>Phone normalisation: results\<close>

lemma replaceAllClass_filter: "replaceAllClass cls s = filter (\<lambda>c. \<not> cls c) s"
  by (induction s) simp_all

lemma startsWith_plus: "startsWith s ''+'' = (take 1 s = ''+'')"
  by (cases s) auto

text \<open>
  Claim C9. For every input, \<open>normalizePhone\<close> returns the digits of the input in their
  original order, with one \<open>+\<close> in front exactly when the trimmed input begins with \<open>+\<close>.
  The input \<open>(555) 123-4567\<close> is normalised to \<open>5551234567\<close>, which is a valid phone number
  and is formatted back to \<open>(555) 123-4567\<close>.
\<close>

theorem normalizePhone_digits_and_plus:
  "normalizePhone phone =
     (if take 1 (trim phone) = ''+'' then ''+'' else '''') @ filter isDigit phone
   \<and> normalizePhone ''(555) 123-4567'' = ''5551234567''
   \<and> isValidPhone ''5551234567''
   \<and> formatPhone ''5551234567'' = ''(555) 123-4567''"
proof -
  have general: "normalizePhone phone =
      (if take 1 (trim phone) = ''+'' then ''+'' else '''') @ filter isDigit phone"
    by (simp add: normalizePhone_def Let_def replaceAllClass_filter startsWith_plus)
  have ex1: "normalizePhone ''(555) 123-4567'' = ''5551234567''"
    by (simp add: normalizePhone_def Let_def trim_def isSpace_def isDigit_def)
  have ex0: "normalizePhone ''5551234567'' = ''5551234567''"
    by (simp add: normalizePhone_def Let_def trim_def isSpace_def isDigit_def)
  have ex2: "isValidPhone ''5551234567''"
    by (simp add: isValidPhone_def Let_def ex0)
  have ex3: "formatPhone ''5551234567'' = ''(555) 123-4567''"
    by (simp add: formatPhone_def Let_def ex0 slice_def sliceFrom_def)
  from general ex1 ex2 ex3 show ?thesis by blast
qed

theorem normalizePhone_digits_and_plus_witness:
  "normalizePhone '' +1 (555) 123-4567'' = ''+15551234567''"
  using normalizePhone_digits_and_plus [of "'' +1 (555) 123-4567''"]
  by (simp add: trim_def isSpace_def isDigit_def)

section \<open>Run lock: results\<close>

lemma acquireLock_two_steps:
  "acquireLock_step now lockName workerId (acquireLock_step now lockName workerId (BeforeRead, db)) =
     (Returned (fst (acquireLock now lockName workerId db)), snd (acquireLock now lockName workerId db))"
  by (simp add: acquireLock_def Let_def)

text \<open>
  Claim C6. Run alone, \<open>acquireLock\<close> returns false and leaves the table as it is when a
  row for the name exists whose expiry is strictly later than now; in every other case (no
  row, or an expiry at or before now) it returns true and the row for the name holds the
  caller's id and the expiry now + 300000 ms (five minutes). It always returns a value.
\<close>

theorem acquireLock_sequential:
  "((\<exists>l. db lockName = Some l \<and> now < expiresAt l) \<longrightarrow>
       acquireLock now lockName workerId db = (False, db))
   \<and> (\<not> (\<exists>l. db lockName = Some l \<and> now < expiresAt l) \<longrightarrow>
       fst (acquireLock now lockName workerId db) = True
       \<and> snd (acquireLock now lockName workerId db) lockName
           = Some \<lparr>lockedBy = Some workerId, expiresAt = now + 300000\<rparr>
       \<and> (\<forall>other. other \<noteq> lockName \<longrightarrow>
             snd (acquireLock now lockName workerId db) other = db other))"
  by (cases "db lockName")
     (auto simp: acquireLock_def Let_def lockIsHeld_def upsertLock_def LOCK_TTL_MS_def)

theorem acquireLock_sequential_witness:
  "acquireLock 1000 ''email_processor'' ''worker-2''
      [''email_processor'' \<mapsto> \<lparr>lockedBy = Some ''worker-1'', expiresAt = 5000\<rparr>]
     = (False, [''email_processor'' \<mapsto> \<lparr>lockedBy = Some ''worker-1'', expiresAt = 5000\<rparr>])
   \<and> fst (acquireLock 5000 ''email_processor'' ''worker-2''
      [''email_processor'' \<mapsto> \<lparr>lockedBy = Some ''worker-1'', expiresAt = 5000\<rparr>]) = True
   \<and> snd (acquireLock 5000 ''email_processor'' ''worker-2''
      [''email_processor'' \<mapsto> \<lparr>lockedBy = Some ''worker-1'', expiresAt = 5000\<rparr>]) ''email_processor''
     = Some \<lparr>lockedBy = Some ''worker-2'', expiresAt = 305000\<rparr>
   \<and> snd (acquireLock 5000 ''email_processor'' ''worker-2''
      [''email_processor'' \<mapsto> \<lparr>lockedBy = Some ''worker-1'', expiresAt = 5000\<rparr>]) ''digest''
     = None"
  using acquireLock_sequential [of "[''email_processor'' \<mapsto> \<lparr>lockedBy = Some ''worker-1'', expiresAt = 5000\<rparr>]"
            "''email_processor''" 1000 "''worker-2''"]
        acquireLock_sequential [of "[''email_processor'' \<mapsto> \<lparr>lockedBy = Some ''worker-1'', expiresAt = 5000\<rparr>]"
            "''email_processor''" 5000 "''worker-2''"]
  by simp

text \<open>
  Claim C7. Two calls race for a lock that nobody holds (no row). When both read before
  either writes, both see no row, both write and both return true: the second write
  replaces the first holder. The read and the write of \<open>acquireLock\<close> are two store calls,
  not one atomic step.
\<close>

theorem acquireLock_race_both_acquire:
  "acquireLock_race [True, False, True, False] (1000, ''worker-A'') (1001, ''worker-B'')
      ''email_processor'' (BeforeRead, BeforeRead, Map.empty)
     = (Returned True, Returned True,
        [''email_processor'' \<mapsto> \<lparr>lockedBy = Some ''worker-B'', expiresAt = 301001\<rparr>])"
  by (simp add: lockIsHeld_def upsertLock_def LOCK_TTL_MS_def)

section \<open>Message processor: results\<close>

lemmas example_defs = example_agent_def example_leadData_def example_lead_def example_env_def
  example_clock_def example_world_def example_world_replied_def

lemmas processor_defs = processMessage_def tryBody_def assignSteps_def leadSteps_def finishSteps_def
  replyStep_def upsertLead_def upsertProcessing_def updateProcessed_def pickAgentRoundRobin_def
  findFirstActive_def updateAgent_def findLead_def logEffect_def nullish_def replyParams_def
  bookingUrlOrDefault_def freshLeadId_def sendCount_def Let_def

lemma effects_logEffect [simp]: "effects (logEffect e w) = effects w @ [e]"
  by (simp add: logEffect_def)

lemma tables_logEffect [simp]:
  "processedMessages (logEffect e w) = processedMessages w"
  "leads (logEffect e w) = leads w"
  "agents (logEffect e w) = agents w"
  by (simp_all add: logEffect_def)

lemma attemptsOf_logEffect [simp]: "attemptsOf (logEffect e w) m = attemptsOf w m"
  by (simp add: attemptsOf_def)

lemma attemptsOf_agents_leads [simp]:
  "attemptsOf (w\<lparr>agents := x\<rparr>) m = attemptsOf w m"
  "attemptsOf (w\<lparr>leads := y\<rparr>) m = attemptsOf w m"
  by (simp_all add: attemptsOf_def)

lemma effects_upsertProcessing:
  "effects (upsertProcessing messageId (Suc (attemptsOf w messageId)) now w) =
     effects w @ [ProcessedWritten messageId
        \<lparr>pm_attempts = Suc (attemptsOf w messageId), pm_lastAttemptAt = now,
         pm_status = PROCESSING, pm_errorLog = None\<rparr>]"
  by (simp add: upsertProcessing_def attemptsOf_def Let_def split: option.splits)

lemma attemptsOf_upsertProcessing:
  "attemptsOf (upsertProcessing messageId (Suc (attemptsOf w messageId)) now w) m =
     (if m = messageId then Suc (attemptsOf w messageId) else attemptsOf w m)"
  by (simp add: upsertProcessing_def attemptsOf_def Let_def split: option.splits)

lemma attemptsOf_updateProcessed [simp]:
  "attemptsOf (updateProcessed messageId st err w) m = attemptsOf w m"
  by (simp add: updateProcessed_def attemptsOf_def Let_def split: option.splits)

lemma prefix_updateProcessed: "prefix (effects w) (effects (updateProcessed messageId st err w))"
  by (simp add: updateProcessed_def Let_def split: option.splits)

lemma attemptsOf_replyStep [simp]:
  "attemptsOf (snd (replyStep en clk a up w)) m = attemptsOf w m"
  by (simp add: replyStep_def Let_def attemptsOf_def split: sum.splits)

lemma prefix_replyStep: "prefix (effects w) (effects (snd (replyStep en clk a up w)))"
  by (simp add: replyStep_def Let_def split: sum.splits)

lemma prefix_snoc: "prefix xs ys \<Longrightarrow> prefix xs (ys @ [e])"
  by (auto simp: prefix_def)

lemma prefix_from_snoc: "prefix (xs @ [e]) ys \<Longrightarrow> prefix xs ys"
  by (metis append_prefixD)

lemma attemptsOf_finishSteps [simp]:
  "attemptsOf (snd (finishSteps en messageId up a w)) m = attemptsOf w m"
  by (simp add: finishSteps_def Let_def split: option.splits)

lemma prefix_finishSteps: "prefix (effects w) (effects (snd (finishSteps en messageId up a w)))"
  by (simp add: finishSteps_def Let_def prefix_snoc prefix_updateProcessed split: option.splits)

lemma attemptsOf_leadSteps [simp]:
  "attemptsOf (snd (leadSteps en clk messageId ld a w)) m = attemptsOf w m"
proof -
  let ?up = "fst (upsertLead ld (findLead (ld_email ld) (leads w)) messageId (agent_id a) (t_assigned clk) (leads w))"
  let ?w1 = "logEffect (LeadUpserted (ld_email ld))
       (w\<lparr>leads := snd (upsertLead ld (findLead (ld_email ld) (leads w)) messageId (agent_id a) (t_assigned clk) (leads w))\<rparr>)"
  obtain r w2 where rs: "replyStep en clk a ?up ?w1 = (r, w2)" by (cases "replyStep en clk a ?up ?w1")
  have "attemptsOf w2 m = attemptsOf w m"
    using attemptsOf_replyStep [of en clk a ?up ?w1 m] rs by simp
  then show ?thesis
    using rs by (cases r) (simp_all add: leadSteps_def Let_def)
qed

lemma prefix_leadSteps: "prefix (effects w) (effects (snd (leadSteps en clk messageId ld a w)))"
proof -
  let ?up = "fst (upsertLead ld (findLead (ld_email ld) (leads w)) messageId (agent_id a) (t_assigned clk) (leads w))"
  let ?w1 = "logEffect (LeadUpserted (ld_email ld))
       (w\<lparr>leads := snd (upsertLead ld (findLead (ld_email ld) (leads w)) messageId (agent_id a) (t_assigned clk) (leads w))\<rparr>)"
  obtain r w2 where rs: "replyStep en clk a ?up ?w1 = (r, w2)" by (cases "replyStep en clk a ?up ?w1")
  have "prefix (effects ?w1) (effects w2)"
    using prefix_replyStep [of ?w1 en clk a ?up] rs by simp
  then have p: "prefix (effects w) (effects w2)"
    by (simp add: prefix_from_snoc)
  have "prefix (effects w2) (effects (snd (finishSteps en messageId ?up a w2)))"
    by (rule prefix_finishSteps)
  with p have "prefix (effects w) (effects (snd (finishSteps en messageId ?up a w2)))"
    by (rule prefix_order.trans)
  with p show ?thesis
    using rs by (cases r) (simp_all add: leadSteps_def Let_def)
qed

lemma attemptsOf_assignSteps [simp]:
  "attemptsOf (snd (assignSteps en clk messageId ld w)) m = attemptsOf w m"
  by (simp add: assignSteps_def Let_def split: sum.splits prod.splits)

lemma prefix_assignSteps: "prefix (effects w) (effects (snd (assignSteps en clk messageId ld w)))"
proof (cases "pickAgentRoundRobin (t_pick clk) (agents w)")
  case (Inl e)
  then show ?thesis by (simp add: assignSteps_def Let_def)
next
  case (Inr p)
  obtain a tbl where p: "p = (a, tbl)" by (cases p)
  have "prefix (effects (logEffect PickAgentCalled w\<lparr>agents := tbl\<rparr>))
          (effects (snd (leadSteps en clk messageId ld a (logEffect PickAgentCalled w\<lparr>agents := tbl\<rparr>))))"
    by (rule prefix_leadSteps)
  then show ?thesis
    using Inr p by (simp add: assignSteps_def Let_def prefix_from_snoc)
qed

lemma attemptsOf_tryBody [simp]:
  "attemptsOf (snd (tryBody en clk messageId w)) m = attemptsOf w m"
  by (simp add: tryBody_def Let_def split: sum.splits)

lemma prefix_tryBody: "prefix (effects w) (effects (snd (tryBody en clk messageId w)))"
proof (cases "extractLeadData en messageId")
  case (Inl e)
  then show ?thesis by (simp add: tryBody_def Let_def)
next
  case (Inr ld)
  have "prefix (effects (logEffect (ExtractCalled messageId) w))
          (effects (snd (assignSteps en clk messageId ld (logEffect (ExtractCalled messageId) w))))"
    by (rule prefix_assignSteps)
  then show ?thesis
    using Inr by (simp add: tryBody_def Let_def prefix_from_snoc)
qed

lemma processMessage_unfold:
  "snd (processMessage en clk messageId w) =
     (let w1 = upsertProcessing messageId (Suc (attemptsOf w messageId)) (t_attempt clk) w;
          r = tryBody en clk messageId w1
      in case fst r of
           Inr _ \<Rightarrow> snd r
         | Inl err \<Rightarrow> logEffect (NotifyCalled messageId (errorMessage en err) (Suc (attemptsOf w messageId)))
                        (updateProcessed messageId FAILED (Some (errorMessage en err)) (snd r)))"
  by (simp add: processMessage_def Let_def attemptsOf_def split: prod.splits sum.splits)

lemma attemptsOf_processMessage:
  "attemptsOf (snd (processMessage en clk messageId w)) m =
     (if m = messageId then Suc (attemptsOf w messageId) else attemptsOf w m)"
  by (simp add: processMessage_unfold Let_def attemptsOf_upsertProcessing split: sum.splits)

lemma prefix_processMessage:
  "prefix (effects (upsertProcessing messageId (Suc (attemptsOf w messageId)) (t_attempt clk) w))
     (effects (snd (processMessage en clk messageId w)))"
proof -
  let ?w1 = "upsertProcessing messageId (Suc (attemptsOf w messageId)) (t_attempt clk) w"
  have p: "prefix (effects ?w1) (effects (snd (tryBody en clk messageId ?w1)))"
    by (rule prefix_tryBody)
  show ?thesis
  proof (cases "fst (tryBody en clk messageId ?w1)")
    case (Inl err)
    have "prefix (effects (snd (tryBody en clk messageId ?w1)))
       (effects (updateProcessed messageId FAILED (Some (errorMessage en err)) (snd (tryBody en clk messageId ?w1))))"
      by (rule prefix_updateProcessed)
    with p have "prefix (effects ?w1)
       (effects (updateProcessed messageId FAILED (Some (errorMessage en err)) (snd (tryBody en clk messageId ?w1))))"
      by (rule prefix_order.trans)
    then show ?thesis using Inl by (simp add: processMessage_unfold Let_def prefix_snoc)
  next
    case (Inr x)
    then show ?thesis using p by (simp add: processMessage_unfold Let_def)
  qed
qed

lemma attemptsOf_processAll: "attemptsOf w m \<le> attemptsOf (processAll calls w) m"
proof (induction calls arbitrary: w)
  case Nil
  show ?case by simp
next
  case (Cons c calls)
  obtain en clk messageId where c: "c = (en, clk, messageId)" by (cases c)
  have "attemptsOf w m \<le> attemptsOf (snd (processMessage en clk messageId w)) m"
    by (simp add: attemptsOf_processMessage)
  also have "\<dots> \<le> attemptsOf (processAll calls (snd (processMessage en clk messageId w))) m"
    by (rule Cons.IH)
  finally show ?case by (simp add: c)
qed

text \<open>
  Claim C8. Every invocation of \<open>processMessage\<close> first writes the Processing Record of
  its message identifier, with the attempt counter one above its prior value (1 when there
  was no record), status \<open>PROCESSING\<close> and no error detail: that write is the first
  effect of the invocation, before the message is fetched, an agent is assigned or a reply
  is sent. The counter of the identifier ends one higher, and over any sequence of
  invocations no counter ever decreases.
\<close>

theorem processMessage_bookkeeping_first:
  "(\<exists>later. effects (snd (processMessage en clk messageId w)) =
       effects w @ ProcessedWritten messageId
          \<lparr>pm_attempts = attemptsOf w messageId + 1, pm_lastAttemptAt = t_attempt clk,
           pm_status = PROCESSING, pm_errorLog = None\<rparr> # later)
   \<and> attemptsOf (snd (processMessage en clk messageId w)) messageId = attemptsOf w messageId + 1
   \<and> attemptsOf w m \<le> attemptsOf (processAll calls w) m"
proof -
  have "prefix (effects w @ [ProcessedWritten messageId
          \<lparr>pm_attempts = Suc (attemptsOf w messageId), pm_lastAttemptAt = t_attempt clk,
           pm_status = PROCESSING, pm_errorLog = None\<rparr>])
     (effects (snd (processMessage en clk messageId w)))"
    using prefix_processMessage [of messageId w clk en] by (simp add: effects_upsertProcessing)
  then have first: "\<exists>later. effects (snd (processMessage en clk messageId w)) =
       effects w @ ProcessedWritten messageId
          \<lparr>pm_attempts = Suc (attemptsOf w messageId), pm_lastAttemptAt = t_attempt clk,
           pm_status = PROCESSING, pm_errorLog = None\<rparr> # later"
    by (auto simp: prefix_def)
  show ?thesis
    using first attemptsOf_processMessage [of en clk messageId w messageId]
      attemptsOf_processAll [of w m calls]
    by simp
qed

subsection \<open>The lead table\<close>

lemma find_map_same:
  "(\<And>x. P (f x) = P x) \<Longrightarrow> find P (map f xs) = map_option f (find P xs)"
  by (induction xs) simp_all

lemma findLead_map:
  "(\<And>l. lead_email (f l) = lead_email l) \<Longrightarrow> findLead e (map f tbl) = map_option f (findLead e tbl)"
  unfolding findLead_def by (rule find_map_same) simp

lemma find_append_None: "find P xs = None \<Longrightarrow> find P (xs @ ys) = find P ys"
  by (induction xs) (simp_all split: if_splits)

lemma findLead_upsertLead:
  "findLead (ld_email ld) (snd (upsertLead ld ex messageId aid now tbl))
     = Some (fst (upsertLead ld ex messageId aid now tbl))"
proof (cases "findLead (ld_email ld) tbl")
  case None
  then show ?thesis
    by (simp add: upsertLead_def Let_def findLead_def find_append_None)
next
  case (Some row)
  let ?upd = "\<lambda>row. row\<lparr>
            lead_firstName := nullish (ld_firstName ld) (Option.bind ex lead_firstName),
            lead_lastName := nullish (ld_lastName ld) (Option.bind ex lead_lastName),
            lead_phone := nullish (ld_phone ld) (Option.bind ex lead_phone),
            lead_source := ld_source ld,
            sourceMessage := messageId,
            assignedAgentId := aid,
            assignedAt := now\<rparr>"
  have "findLead (ld_email ld) (map (\<lambda>l. if lead_email l = ld_email ld then ?upd l else l) tbl)
          = map_option (\<lambda>l. if lead_email l = ld_email ld then ?upd l else l) (findLead (ld_email ld) tbl)"
    by (rule findLead_map) simp
  moreover have "lead_email row = ld_email ld"
    using Some by (auto simp: findLead_def find_Some_iff)
  ultimately show ?thesis
    using Some by (simp add: upsertLead_def Let_def)
qed

lemma upsertLead_existing:
  assumes "findLead (ld_email ld) tbl = Some old"
  shows "lead_firstName (fst (upsertLead ld (Some old) messageId aid now tbl))
           = (case ld_firstName ld of Some v \<Rightarrow> Some v | None \<Rightarrow> lead_firstName old)"
    and "lead_lastName (fst (upsertLead ld (Some old) messageId aid now tbl))
           = (case ld_lastName ld of Some v \<Rightarrow> Some v | None \<Rightarrow> lead_lastName old)"
    and "lead_phone (fst (upsertLead ld (Some old) messageId aid now tbl))
           = (case ld_phone ld of Some v \<Rightarrow> Some v | None \<Rightarrow> lead_phone old)"
    and "assignedAgentId (fst (upsertLead ld (Some old) messageId aid now tbl)) = aid"
    and "assignedAt (fst (upsertLead ld (Some old) messageId aid now tbl)) = now"
    and "lead_id (fst (upsertLead ld (Some old) messageId aid now tbl)) = lead_id old"
    and "replySentAt (fst (upsertLead ld (Some old) messageId aid now tbl)) = replySentAt old"
    and "map lead_email (snd (upsertLead ld (Some old) messageId aid now tbl)) = map lead_email tbl"
  using assms by (simp_all add: upsertLead_def Let_def nullish_def o_def cong: map_cong)

lemma upsertLead_replySentAt:
  "replySentAt (fst (upsertLead ld (findLead (ld_email ld) tbl) messageId aid now tbl))
     = Option.bind (findLead (ld_email ld) tbl) replySentAt"
  by (cases "findLead (ld_email ld) tbl") (simp_all add: upsertLead_def Let_def)

lemma leads_replyStep:
  "\<exists>r. leads (snd (replyStep en clk a up w)) = map (\<lambda>l. l\<lparr>replySentAt := r l\<rparr>) (leads w)"
proof (cases "replySentAt up = None \<and> (\<exists>x. sendLeadReply en (replyParams en a up) = Inr x)")
  case True
  have "map (\<lambda>l. if lead_id l = lead_id up then l\<lparr>replySentAt := Some (t_reply clk)\<rparr> else l) (leads w)
      = map (\<lambda>l. l\<lparr>replySentAt := (if lead_id l = lead_id up then Some (t_reply clk) else replySentAt l)\<rparr>) (leads w)"
    by (rule map_cong) simp_all
  with True have "leads (snd (replyStep en clk a up w))
      = map (\<lambda>l. l\<lparr>replySentAt := (if lead_id l = lead_id up then Some (t_reply clk) else replySentAt l)\<rparr>) (leads w)"
    by (auto simp: replyStep_def Let_def)
  then show ?thesis
    by (rule exI [where x = "\<lambda>l. if lead_id l = lead_id up then Some (t_reply clk) else replySentAt l"])
next
  case False
  then have "leads (snd (replyStep en clk a up w)) = leads w"
    by (cases "sendLeadReply en (replyParams en a up)") (auto simp: replyStep_def Let_def)
  then have "leads (snd (replyStep en clk a up w)) = map (\<lambda>l. l\<lparr>replySentAt := replySentAt l\<rparr>) (leads w)"
    by simp
  then show ?thesis by (rule exI [where x = replySentAt])
qed

lemma leads_updateProcessed [simp]: "leads (updateProcessed messageId st err w) = leads w"
  by (simp add: updateProcessed_def Let_def split: option.splits)

lemma leads_upsertProcessing [simp]: "leads (upsertProcessing messageId n now w) = leads w"
  by (simp add: upsertProcessing_def Let_def)

lemma agents_upsertProcessing [simp]: "agents (upsertProcessing messageId n now w) = agents w"
  by (simp add: upsertProcessing_def Let_def)

lemma leads_finishSteps [simp]: "leads (snd (finishSteps en messageId up a w)) = leads w"
  by (simp add: finishSteps_def Let_def split: option.splits)

lemma leads_leadSteps:
  "\<exists>r. leads (snd (leadSteps en clk messageId ld a w))
     = map (\<lambda>l. l\<lparr>replySentAt := r l\<rparr>)
         (snd (upsertLead ld (findLead (ld_email ld) (leads w)) messageId (agent_id a) (t_assigned clk) (leads w)))"
proof -
  let ?up = "upsertLead ld (findLead (ld_email ld) (leads w)) messageId (agent_id a) (t_assigned clk) (leads w)"
  let ?w1 = "logEffect (LeadUpserted (ld_email ld)) (w\<lparr>leads := snd ?up\<rparr>)"
  obtain r where r: "leads (snd (replyStep en clk a (fst ?up) ?w1)) = map (\<lambda>l. l\<lparr>replySentAt := r l\<rparr>) (leads ?w1)"
    using leads_replyStep by blast
  obtain res w2 where rs: "replyStep en clk a (fst ?up) ?w1 = (res, w2)"
    by (cases "replyStep en clk a (fst ?up) ?w1")
  have "leads (snd (leadSteps en clk messageId ld a w)) = leads w2"
    using rs by (cases res) (simp_all add: leadSteps_def Let_def)
  with r rs have "leads (snd (leadSteps en clk messageId ld a w)) = map (\<lambda>l. l\<lparr>replySentAt := r l\<rparr>) (snd ?up)"
    by simp
  then show ?thesis by (rule exI [where x = r])
qed

lemma leads_processMessage:
  assumes "extractLeadData en messageId = Inr ld"
      and "pickAgentRoundRobin (t_pick clk) (agents w) = Inr (a, tbl)"
  shows "\<exists>r. leads (snd (processMessage en clk messageId w))
     = map (\<lambda>l. l\<lparr>replySentAt := r l\<rparr>)
         (snd (upsertLead ld (findLead (ld_email ld) (leads w)) messageId (agent_id a) (t_assigned clk) (leads w)))"
proof -
  let ?w1 = "upsertProcessing messageId (Suc (attemptsOf w messageId)) (t_attempt clk) w"
  let ?w3 = "(logEffect PickAgentCalled (logEffect (ExtractCalled messageId) ?w1))\<lparr>agents := tbl\<rparr>"
  have tb: "tryBody en clk messageId ?w1 = leadSteps en clk messageId ld a ?w3"
    using assms by (simp add: tryBody_def assignSteps_def Let_def)
  have "leads (snd (processMessage en clk messageId w)) = leads (snd (tryBody en clk messageId ?w1))"
    by (simp add: processMessage_unfold Let_def split: sum.splits)
  then have "leads (snd (processMessage en clk messageId w)) = leads (snd (leadSteps en clk messageId ld a ?w3))"
    by (simp add: tb)
  moreover have "leads ?w3 = leads w" by simp
  ultimately show ?thesis
    using leads_leadSteps [of en clk messageId ld a ?w3] by simp
qed

text \<open>
  Claim C2. When the email extracted from a message already has a Lead Record and an agent
  was picked, the record of that email after the invocation has first name, last name and
  phone equal to the candidate's value where the candidate has one and to the old value
  where it has none; its agent reference and assignment time are those of the new
  selection; it is the same row (same id), and the table has the same emails in the same
  order as before, so no second record was created.
\<close>

theorem lead_merge:
  assumes "extractLeadData en messageId = Inr ld"
      and "pickAgentRoundRobin (t_pick clk) (agents w) = Inr (a, tbl)"
      and "findLead (ld_email ld) (leads w) = Some old"
  shows "(\<exists>new. findLead (ld_email ld) (leads (snd (processMessage en clk messageId w))) = Some new
           \<and> lead_firstName new = (case ld_firstName ld of Some v \<Rightarrow> Some v | None \<Rightarrow> lead_firstName old)
           \<and> lead_lastName new = (case ld_lastName ld of Some v \<Rightarrow> Some v | None \<Rightarrow> lead_lastName old)
           \<and> lead_phone new = (case ld_phone ld of Some v \<Rightarrow> Some v | None \<Rightarrow> lead_phone old)
           \<and> assignedAgentId new = agent_id a
           \<and> assignedAt new = t_assigned clk
           \<and> lead_id new = lead_id old)
       \<and> map lead_email (leads (snd (processMessage en clk messageId w))) = map lead_email (leads w)"
proof -
  let ?up = "upsertLead ld (Some old) messageId (agent_id a) (t_assigned clk) (leads w)"
  obtain r where r: "leads (snd (processMessage en clk messageId w)) = map (\<lambda>l. l\<lparr>replySentAt := r l\<rparr>) (snd ?up)"
    using leads_processMessage [OF assms(1,2)] assms(3) by auto
  have "findLead (ld_email ld) (map (\<lambda>l. l\<lparr>replySentAt := r l\<rparr>) (snd ?up))
          = map_option (\<lambda>l. l\<lparr>replySentAt := r l\<rparr>) (findLead (ld_email ld) (snd ?up))"
    by (rule findLead_map) simp
  then have found: "findLead (ld_email ld) (leads (snd (processMessage en clk messageId w)))
          = Some ((fst ?up)\<lparr>replySentAt := r (fst ?up)\<rparr>)"
    by (simp add: r findLead_upsertLead)
  have emails: "map lead_email (leads (snd (processMessage en clk messageId w))) = map lead_email (leads w)"
    by (simp add: r o_def upsertLead_existing(8) [OF assms(3), unfolded o_def])
  show ?thesis
    using found emails upsertLead_existing(1-6) [OF assms(3), of messageId "agent_id a" "t_assigned clk"]
    by simp
qed

theorem lead_merge_witness:
  "map_option lead_firstName (findLead ''john@example.com''
      (leads (snd (processMessage example_env example_clock ''m1'' example_world_replied))))
     = Some (Some ''John'')
   \<and> map_option lead_lastName (findLead ''john@example.com''
      (leads (snd (processMessage example_env example_clock ''m1'' example_world_replied))))
     = Some (Some ''Smith'')
   \<and> map_option lead_phone (findLead ''john@example.com''
      (leads (snd (processMessage example_env example_clock ''m1'' example_world_replied))))
     = Some (Some ''5551234567'')
   \<and> map_option assignedAgentId (findLead ''john@example.com''
      (leads (snd (processMessage example_env example_clock ''m1'' example_world_replied))))
     = Some 1
   \<and> map_option lead_id (findLead ''john@example.com''
      (leads (snd (processMessage example_env example_clock ''m1'' example_world_replied))))
     = Some 7
   \<and> map lead_email (leads (snd (processMessage example_env example_clock ''m1'' example_world_replied)))
     = [''john@example.com'']"
proof -
  have h1: "extractLeadData example_env ''m1'' = Inr example_leadData"
    by (simp add: example_env_def)
  have h2: "pickAgentRoundRobin (t_pick example_clock) (agents example_world_replied) =
      Inr (example_agent, [example_agent\<lparr>lastAssignedAt := Some 1001, assignedCount := 1\<rparr>])"
    by (simp add: example_defs processor_defs)
  have h3: "findLead (ld_email example_leadData) (leads example_world_replied) = Some example_lead"
    by (simp add: example_defs findLead_def)
  have e: "ld_email example_leadData = ''john@example.com''"
    by (simp add: example_leadData_def)
  show ?thesis
    using lead_merge [OF h1 h2 h3] unfolding e
    by (auto simp: example_leadData_def example_lead_def example_agent_def example_world_replied_def)
qed

subsection \<open>The reply step\<close>

lemma sendCount_logEffect [simp]:
  "sendCount (logEffect e w) = sendCount w + (case e of SendCalled _ \<Rightarrow> 1 | _ \<Rightarrow> 0)"
  by (cases e) (simp_all add: sendCount_def)

lemma sendCount_fields [simp]:
  "sendCount (w\<lparr>agents := x\<rparr>) = sendCount w"
  "sendCount (w\<lparr>leads := y\<rparr>) = sendCount w"
  "sendCount (w\<lparr>processedMessages := z\<rparr>) = sendCount w"
  by (simp_all add: sendCount_def)

lemma sendCount_updateProcessed [simp]: "sendCount (updateProcessed messageId st err w) = sendCount w"
  by (simp add: updateProcessed_def Let_def split: option.splits)

lemma sendCount_upsertProcessing [simp]: "sendCount (upsertProcessing messageId n now w) = sendCount w"
  by (simp add: upsertProcessing_def Let_def)

lemma sendCount_replyStep:
  "sendCount (snd (replyStep en clk a up w)) = sendCount w + (if replySentAt up = None then 1 else 0)"
  by (simp add: replyStep_def Let_def split: sum.splits)

lemma sendCount_finishSteps [simp]: "sendCount (snd (finishSteps en messageId up a w)) = sendCount w"
  by (simp add: finishSteps_def Let_def split: option.splits)

lemma sendCount_leadSteps:
  "sendCount (snd (leadSteps en clk messageId ld a w)) =
     sendCount w + (if replySentAt (fst (upsertLead ld (findLead (ld_email ld) (leads w)) messageId
                                           (agent_id a) (t_assigned clk) (leads w))) = None
                    then 1 else 0)"
proof -
  let ?up = "upsertLead ld (findLead (ld_email ld) (leads w)) messageId (agent_id a) (t_assigned clk) (leads w)"
  let ?w1 = "logEffect (LeadUpserted (ld_email ld)) (w\<lparr>leads := snd ?up\<rparr>)"
  obtain res w2 where rs: "replyStep en clk a (fst ?up) ?w1 = (res, w2)"
    by (cases "replyStep en clk a (fst ?up) ?w1")
  have "sendCount w2 = sendCount ?w1 + (if replySentAt (fst ?up) = None then 1 else 0)"
    using sendCount_replyStep [of en clk a "fst ?up" ?w1] rs by simp
  moreover have "sendCount (snd (leadSteps en clk messageId ld a w)) = sendCount w2"
    using rs by (cases res) (simp_all add: leadSteps_def Let_def)
  ultimately show ?thesis by simp
qed

lemma tryBody_reached:
  assumes "extractLeadData en messageId = Inr ld"
      and "pickAgentRoundRobin (t_pick clk) (agents w) = Inr (a, tbl)"
  shows "tryBody en clk messageId w =
           leadSteps en clk messageId ld a
             ((logEffect PickAgentCalled (logEffect (ExtractCalled messageId) w))\<lparr>agents := tbl\<rparr>)"
  using assms by (simp add: tryBody_def assignSteps_def Let_def)

lemma sendCount_tryBody:
  "sendCount (snd (tryBody en clk messageId w)) =
     sendCount w +
     (case extractLeadData en messageId of
        Inl _ \<Rightarrow> 0
      | Inr ld \<Rightarrow>
          (case pickAgentRoundRobin (t_pick clk) (agents w) of
             Inl _ \<Rightarrow> 0
           | Inr _ \<Rightarrow> if Option.bind (findLead (ld_email ld) (leads w)) replySentAt = None then 1 else 0))"
proof (cases "extractLeadData en messageId")
  case (Inl e)
  then show ?thesis by (simp add: tryBody_def Let_def)
next
  case ex: (Inr ld)
  show ?thesis
  proof (cases "pickAgentRoundRobin (t_pick clk) (agents w)")
    case (Inl e)
    then show ?thesis using ex by (simp add: tryBody_def assignSteps_def Let_def)
  next
    case (Inr p)
    obtain a tbl where p: "p = (a, tbl)" by (cases p)
    show ?thesis
      using ex Inr p
      by (simp add: tryBody_reached [OF ex Inr [unfolded p]] sendCount_leadSteps upsertLead_replySentAt)
  qed
qed

lemma sendCount_processMessage:
  "sendCount (snd (processMessage en clk messageId w)) =
     sendCount w +
     (case extractLeadData en messageId of
        Inl _ \<Rightarrow> 0
      | Inr ld \<Rightarrow>
          (case pickAgentRoundRobin (t_pick clk) (agents w) of
             Inl _ \<Rightarrow> 0
           | Inr _ \<Rightarrow> if Option.bind (findLead (ld_email ld) (leads w)) replySentAt = None then 1 else 0))"
proof -
  let ?w1 = "upsertProcessing messageId (Suc (attemptsOf w messageId)) (t_attempt clk) w"
  have "sendCount (snd (processMessage en clk messageId w)) = sendCount (snd (tryBody en clk messageId ?w1))"
    by (simp add: processMessage_unfold Let_def split: sum.splits)
  then show ?thesis
    by (simp add: sendCount_tryBody cong: sum.case_cong)
qed

lemma replyStep_sent:
  assumes "replySentAt up = None" and "sendLeadReply en (replyParams en a up) = Inr x"
  shows "replyStep en clk a up w =
     (None, logEffect (ReplySentWritten (lead_id up))
              ((logEffect (SendCalled (replyParams en a up)) w)
                 \<lparr>leads := map (\<lambda>l. if lead_id l = lead_id up
                                      then l\<lparr>replySentAt := Some (t_reply clk)\<rparr> else l)
                               (leads w)\<rparr>))"
  using assms by (simp add: replyStep_def Let_def)

lemma replyStep_skipped:
  assumes "replySentAt up \<noteq> None"
  shows "replyStep en clk a up w = (None, w)"
  using assms by (auto simp: replyStep_def)

lemma replyStep_failed:
  assumes "replySentAt up = None" and "sendLeadReply en (replyParams en a up) = Inl e"
  shows "replyStep en clk a up w = (Some (ReplyFailed e), logEffect (SendCalled (replyParams en a up)) w)"
  using assms by (simp add: replyStep_def Let_def)

text \<open>What the lead row of the extracted email is after steps 4 and 5.\<close>

lemma leadSteps_lead_after:
  fixes ld a w messageId clk
  defines "up \<equiv> fst (upsertLead ld (findLead (ld_email ld) (leads w)) messageId
                         (agent_id a) (t_assigned clk) (leads w))"
  shows "findLead (ld_email ld) (leads (snd (leadSteps en clk messageId ld a w))) =
     Some (if replySentAt up = None \<and> (\<exists>x. sendLeadReply en (replyParams en a up) = Inr x)
           then up\<lparr>replySentAt := Some (t_reply clk)\<rparr> else up)"
proof -
  let ?u = "upsertLead ld (findLead (ld_email ld) (leads w)) messageId (agent_id a) (t_assigned clk) (leads w)"
  let ?w1 = "logEffect (LeadUpserted (ld_email ld)) (w\<lparr>leads := snd ?u\<rparr>)"
  have found: "findLead (ld_email ld) (snd ?u) = Some up"
    unfolding up_def by (rule findLead_upsertLead)
  show ?thesis
  proof (cases "replySentAt up = None")
    case False
    then have "leadSteps en clk messageId ld a w = finishSteps en messageId up a ?w1"
      by (simp add: leadSteps_def Let_def up_def replyStep_skipped)
    then show ?thesis using False found by simp
  next
    case True
    show ?thesis
    proof (cases "sendLeadReply en (replyParams en a up)")
      case (Inl e)
      then have "snd (leadSteps en clk messageId ld a w) = logEffect (SendCalled (replyParams en a up)) ?w1"
        using True by (simp add: leadSteps_def Let_def up_def [symmetric] replyStep_failed)
      then show ?thesis using Inl found by simp
    next
      case (Inr x)
      let ?h = "\<lambda>l. if lead_id l = lead_id up then l\<lparr>replySentAt := Some (t_reply clk)\<rparr> else l"
      have "leads (snd (leadSteps en clk messageId ld a w)) = map ?h (snd ?u)"
        using True Inr by (simp add: leadSteps_def Let_def up_def [symmetric] replyStep_sent)
      moreover have "findLead (ld_email ld) (map ?h (snd ?u)) = map_option ?h (findLead (ld_email ld) (snd ?u))"
        by (rule findLead_map) simp
      ultimately show ?thesis using True Inr found by simp
    qed
  qed
qed

lemma sublist_then_prefix: "sublist xs ys \<Longrightarrow> prefix ys zs \<Longrightarrow> sublist xs zs"
proof -
  assume "sublist xs ys" and "prefix ys zs"
  then obtain ps ss t where "ys = ps @ xs @ ss" and "zs = ys @ t"
    by (auto simp: sublist_def prefix_def)
  then have "zs = ps @ xs @ (ss @ t)" by simp
  then show "sublist xs zs" unfolding sublist_def by blast
qed

lemma leadSteps_send_then_write:
  fixes ld a w messageId clk
  defines "up \<equiv> fst (upsertLead ld (findLead (ld_email ld) (leads w)) messageId
                         (agent_id a) (t_assigned clk) (leads w))"
  assumes "replySentAt up = None" and "sendLeadReply en (replyParams en a up) = Inr x"
  shows "sublist [SendCalled (replyParams en a up), ReplySentWritten (lead_id up)]
           (effects (snd (leadSteps en clk messageId ld a w)))"
proof -
  let ?u = "upsertLead ld (findLead (ld_email ld) (leads w)) messageId (agent_id a) (t_assigned clk) (leads w)"
  let ?w1 = "logEffect (LeadUpserted (ld_email ld)) (w\<lparr>leads := snd ?u\<rparr>)"
  let ?w2 = "logEffect (ReplySentWritten (lead_id up))
              ((logEffect (SendCalled (replyParams en a up)) ?w1)
                 \<lparr>leads := map (\<lambda>l. if lead_id l = lead_id up
                                      then l\<lparr>replySentAt := Some (t_reply clk)\<rparr> else l)
                               (leads ?w1)\<rparr>)"
  have eq: "leadSteps en clk messageId ld a w = finishSteps en messageId up a ?w2"
    using assms(2,3) by (simp add: leadSteps_def Let_def up_def [symmetric] replyStep_sent)
  have pre: "prefix (effects ?w2) (effects (snd (finishSteps en messageId up a ?w2)))"
    by (rule prefix_finishSteps)
  have "effects ?w2 = (effects w @ [LeadUpserted (ld_email ld)])
       @ [SendCalled (replyParams en a up), ReplySentWritten (lead_id up)]"
    by simp
  then have sub: "sublist [SendCalled (replyParams en a up), ReplySentWritten (lead_id up)] (effects ?w2)"
    by (simp only: sublist_append_leftI)
  have "sublist [SendCalled (replyParams en a up), ReplySentWritten (lead_id up)]
          (effects (snd (finishSteps en messageId up a ?w2)))"
    using sub pre by (rule sublist_then_prefix)
  then show ?thesis by (simp only: eq)
qed

lemma leadSteps_success:
  fixes ld a w messageId clk
  defines "up \<equiv> fst (upsertLead ld (findLead (ld_email ld) (leads w)) messageId
                         (agent_id a) (t_assigned clk) (leads w))"
  assumes "fst (leadSteps en clk messageId ld a w) = Inr r"
  shows "replySentAt up \<noteq> None \<or> (\<exists>x. sendLeadReply en (replyParams en a up) = Inr x)"
proof (rule ccontr)
  assume "\<not> ?thesis"
  then obtain e where "replySentAt up = None" "sendLeadReply en (replyParams en a up) = Inl e"
    by (cases "sendLeadReply en (replyParams en a up)") auto
  then have "fst (leadSteps en clk messageId ld a w) = Inl (ReplyFailed e)"
    by (simp add: leadSteps_def Let_def up_def [symmetric] replyStep_failed)
  with assms(2) show False by simp
qed

lemma processMessage_reached:
  assumes "extractLeadData en messageId = Inr ld"
      and "pickAgentRoundRobin (t_pick clk) (agents w) = Inr (a, tbl)"
  shows "\<exists>w3. leads w3 = leads w
           \<and> tryBody en clk messageId (upsertProcessing messageId (Suc (attemptsOf w messageId)) (t_attempt clk) w)
               = leadSteps en clk messageId ld a w3"
proof -
  let ?w1 = "upsertProcessing messageId (Suc (attemptsOf w messageId)) (t_attempt clk) w"
  let ?w3 = "(logEffect PickAgentCalled (logEffect (ExtractCalled messageId) ?w1))\<lparr>agents := tbl\<rparr>"
  have "tryBody en clk messageId ?w1 = leadSteps en clk messageId ld a ?w3"
    using assms by (simp add: tryBody_reached)
  moreover have "leads ?w3 = leads w" by simp
  ultimately show ?thesis by blast
qed

lemma prefix_tryBody_processMessage:
  "prefix (effects (snd (tryBody en clk messageId
              (upsertProcessing messageId (Suc (attemptsOf w messageId)) (t_attempt clk) w))))
          (effects (snd (processMessage en clk messageId w)))"
proof -
  let ?r = "tryBody en clk messageId (upsertProcessing messageId (Suc (attemptsOf w messageId)) (t_attempt clk) w)"
  show ?thesis
  proof (cases "fst ?r")
    case (Inl err)
    have "prefix (effects (snd ?r)) (effects (updateProcessed messageId FAILED (Some (errorMessage en err)) (snd ?r)))"
      by (rule prefix_updateProcessed)
    then show ?thesis using Inl by (simp add: processMessage_unfold Let_def prefix_snoc)
  next
    case (Inr x)
    then show ?thesis by (simp add: processMessage_unfold Let_def)
  qed
qed

lemma leads_tryBody_processMessage:
  "leads (snd (processMessage en clk messageId w)) =
   leads (snd (tryBody en clk messageId
              (upsertProcessing messageId (Suc (attemptsOf w messageId)) (t_attempt clk) w)))"
  by (simp add: processMessage_unfold Let_def split: sum.splits)

lemma success_tryBody:
  "pr_success (fst (processMessage en clk messageId w)) =
     (\<exists>r. fst (tryBody en clk messageId
              (upsertProcessing messageId (Suc (attemptsOf w messageId)) (t_attempt clk) w)) = Inr r)"
  by (simp add: processMessage_def Let_def attemptsOf_def split: prod.splits sum.splits)

text \<open>
  Claim C1, amended. Let an invocation reach step 5 (the lead was extracted and an agent
  picked), and let \<open>up\<close> be the upserted Lead Record. The invocation calls the outbound
  transport once if the reply-sent timestamp of \<open>up\<close> is null and not at all otherwise.
  When the call returns, the write of the timestamp is the very next effect and the record
  of the email then carries the timestamp. If the invocation succeeded, a second invocation
  for the same message identifier (whose extraction, if it succeeds, yields the same email)
  sends nothing; so across both runs one reply is sent when \<open>up\<close> had no reply-sent
  timestamp in the first run, and none when it had one.
\<close>

theorem reply_idempotent:
  assumes "extractLeadData en messageId = Inr ld"
      and "pickAgentRoundRobin (t_pick clk) (agents w) = Inr (a, tbl)"
  shows "let up = fst (upsertLead ld (findLead (ld_email ld) (leads w)) messageId
                         (agent_id a) (t_assigned clk) (leads w));
             w1 = snd (processMessage en clk messageId w);
             w2 = snd (processMessage en2 clk2 messageId w1)
         in sendCount w1 = sendCount w + (if replySentAt up = None then 1 else 0)
          \<and> ((replySentAt up = None \<and> (\<exists>x. sendLeadReply en (replyParams en a up) = Inr x)) \<longrightarrow>
               sublist [SendCalled (replyParams en a up), ReplySentWritten (lead_id up)] (effects w1)
               \<and> findLead (ld_email ld) (leads w1) = Some (up\<lparr>replySentAt := Some (t_reply clk)\<rparr>))
          \<and> ((pr_success (fst (processMessage en clk messageId w))
               \<and> (\<forall>ld2. extractLeadData en2 messageId = Inr ld2 \<longrightarrow> ld_email ld2 = ld_email ld)) \<longrightarrow>
               sendCount w2 = sendCount w1
               \<and> sendCount w2 = sendCount w + (if replySentAt up = None then 1 else 0))"
proof -
  define up where "up = fst (upsertLead ld (findLead (ld_email ld) (leads w)) messageId
                         (agent_id a) (t_assigned clk) (leads w))"
  define w1 where "w1 = snd (processMessage en clk messageId w)"
  define w2 where "w2 = snd (processMessage en2 clk2 messageId w1)"
  let ?w0 = "upsertProcessing messageId (Suc (attemptsOf w messageId)) (t_attempt clk) w"
  obtain w3 where w3: "leads w3 = leads w"
    and tb: "tryBody en clk messageId ?w0 = leadSteps en clk messageId ld a w3"
    using processMessage_reached [OF assms] by blast
  have up3: "up = fst (upsertLead ld (findLead (ld_email ld) (leads w3)) messageId
                         (agent_id a) (t_assigned clk) (leads w3))"
    by (simp add: up_def w3)
  have count1: "sendCount w1 = sendCount w + (if replySentAt up = None then 1 else 0)"
    using assms by (simp add: w1_def sendCount_processMessage up_def upsertLead_replySentAt)
  have after: "findLead (ld_email ld) (leads w1) =
     Some (if replySentAt up = None \<and> (\<exists>x. sendLeadReply en (replyParams en a up) = Inr x)
           then up\<lparr>replySentAt := Some (t_reply clk)\<rparr> else up)"
    unfolding w1_def leads_tryBody_processMessage tb up3 by (rule leadSteps_lead_after)
  have sent: "sublist [SendCalled (replyParams en a up), ReplySentWritten (lead_id up)] (effects w1)"
    if "replySentAt up = None" and "sendLeadReply en (replyParams en a up) = Inr x" for x
  proof -
    have "sublist [SendCalled (replyParams en a up), ReplySentWritten (lead_id up)]
            (effects (snd (leadSteps en clk messageId ld a w3)))"
      using that unfolding up3 by (rule leadSteps_send_then_write)
    moreover have "prefix (effects (snd (leadSteps en clk messageId ld a w3))) (effects w1)"
      using prefix_tryBody_processMessage [of en clk messageId w] by (simp add: tb w1_def)
    ultimately show ?thesis by (rule sublist_then_prefix)
  qed
  have second: "sendCount w2 = sendCount w1"
    if ok: "pr_success (fst (processMessage en clk messageId w))"
    and same: "\<forall>ld2. extractLeadData en2 messageId = Inr ld2 \<longrightarrow> ld_email ld2 = ld_email ld"
  proof -
    obtain r where "fst (leadSteps en clk messageId ld a w3) = Inr r"
      using ok by (auto simp: success_tryBody tb)
    then have "replySentAt up \<noteq> None \<or> (\<exists>x. sendLeadReply en (replyParams en a up) = Inr x)"
      unfolding up3 by (rule leadSteps_success)
    then have replied: "Option.bind (findLead (ld_email ld) (leads w1)) replySentAt \<noteq> None"
      using after by auto
    show ?thesis
    proof (cases "extractLeadData en2 messageId")
      case (Inl e)
      then show ?thesis by (simp add: w2_def sendCount_processMessage)
    next
      case (Inr ld2)
      then have "ld_email ld2 = ld_email ld" using same by simp
      then show ?thesis
        using Inr replied by (simp add: w2_def sendCount_processMessage split: sum.splits)
    qed
  qed
  have part2: "(replySentAt up = None \<and> (\<exists>x. sendLeadReply en (replyParams en a up) = Inr x)) \<longrightarrow>
               sublist [SendCalled (replyParams en a up), ReplySentWritten (lead_id up)] (effects w1)
               \<and> findLead (ld_email ld) (leads w1) = Some (up\<lparr>replySentAt := Some (t_reply clk)\<rparr>)"
  proof (intro impI, elim conjE exE, intro conjI)
    fix x assume n: "replySentAt up = None" and s: "sendLeadReply en (replyParams en a up) = Inr x"
    show "sublist [SendCalled (replyParams en a up), ReplySentWritten (lead_id up)] (effects w1)"
      using n s by (rule sent)
    show "findLead (ld_email ld) (leads w1) = Some (up\<lparr>replySentAt := Some (t_reply clk)\<rparr>)"
      using n s by (simp add: after)
  qed
  have part3: "(pr_success (fst (processMessage en clk messageId w))
               \<and> (\<forall>ld2. extractLeadData en2 messageId = Inr ld2 \<longrightarrow> ld_email ld2 = ld_email ld)) \<longrightarrow>
               sendCount w2 = sendCount w1
               \<and> sendCount w2 = sendCount w + (if replySentAt up = None then 1 else 0)"
  proof (intro impI, elim conjE)
    assume ok: "pr_success (fst (processMessage en clk messageId w))"
      and same: "\<forall>ld2. extractLeadData en2 messageId = Inr ld2 \<longrightarrow> ld_email ld2 = ld_email ld"
    have "sendCount w2 = sendCount w1" using ok same by (rule second)
    then show "sendCount w2 = sendCount w1
               \<and> sendCount w2 = sendCount w + (if replySentAt up = None then 1 else 0)"
      using count1 by simp
  qed
  have "sendCount w1 = sendCount w + (if replySentAt up = None then 1 else 0) \<and>
    ((replySentAt up = None \<and> (\<exists>x. sendLeadReply en (replyParams en a up) = Inr x)) \<longrightarrow>
               sublist [SendCalled (replyParams en a up), ReplySentWritten (lead_id up)] (effects w1)
               \<and> findLead (ld_email ld) (leads w1) = Some (up\<lparr>replySentAt := Some (t_reply clk)\<rparr>)) \<and>
    ((pr_success (fst (processMessage en clk messageId w))
               \<and> (\<forall>ld2. extractLeadData en2 messageId = Inr ld2 \<longrightarrow> ld_email ld2 = ld_email ld)) \<longrightarrow>
               sendCount w2 = sendCount w1
               \<and> sendCount w2 = sendCount w + (if replySentAt up = None then 1 else 0))"
    using count1 part2 part3 by (intro conjI)
  then show ?thesis
    unfolding Let_def up_def w1_def w2_def .
qed

theorem reply_idempotent_witness:
  "sendCount (snd (processMessage example_env example_clock ''m1'' example_world)) = 1
   \<and> map_option replySentAt (findLead ''john@example.com''
        (leads (snd (processMessage example_env example_clock ''m1'' example_world))))
      = Some (Some 1003)
   \<and> sendCount (snd (processMessage example_env example_clock ''m1''
        (snd (processMessage example_env example_clock ''m1'' example_world)))) = 1"
proof -
  have h1: "extractLeadData example_env ''m1'' = Inr example_leadData"
    by (simp add: example_env_def)
  have h2: "pickAgentRoundRobin (t_pick example_clock) (agents example_world) =
      Inr (example_agent, [example_agent\<lparr>lastAssignedAt := Some 1001, assignedCount := 1\<rparr>])"
    by (simp add: example_defs processor_defs)
  have h3: "replySentAt (fst (upsertLead example_leadData
              (findLead (ld_email example_leadData) (leads example_world)) ''m1''
              (agent_id example_agent) (t_assigned example_clock) (leads example_world))) = None"
    by (simp add: example_defs processor_defs)
  have h4: "\<exists>x. sendLeadReply example_env (replyParams example_env example_agent
              (fst (upsertLead example_leadData
                (findLead (ld_email example_leadData) (leads example_world)) ''m1''
                (agent_id example_agent) (t_assigned example_clock) (leads example_world)))) = Inr x"
    by (simp add: example_env_def)
  have h5: "pr_success (fst (processMessage example_env example_clock ''m1'' example_world))"
    by (simp add: example_defs processor_defs)
  have h6: "\<forall>ld2. extractLeadData example_env ''m1'' = Inr ld2 \<longrightarrow> ld_email ld2 = ld_email example_leadData"
    by (simp add: example_env_def)
  have e: "ld_email example_leadData = ''john@example.com''"
    by (simp add: example_leadData_def)
  have s0: "sendCount example_world = 0"
    by (simp add: example_world_def sendCount_def)
  show ?thesis
    using reply_idempotent [OF h1 h2, where ?en2.0 = example_env and ?clk2.0 = example_clock] h3 h4 h5 h6
    unfolding Let_def e
    by (simp add: s0 example_clock_def)
qed

text \<open>
  The claim as worded (exactly one reply across the two runs) fails when the lead had been
  replied to before the first run: both runs succeed and neither sends.
\<close>

theorem reply_exactly_once_counterexample:
  "pr_success (fst (processMessage example_env example_clock ''m1'' example_world_replied))
   \<and> sendCount example_world_replied = 0
   \<and> sendCount (snd (processMessage example_env example_clock ''m1''
        (snd (processMessage example_env example_clock ''m1'' example_world_replied)))) = 0"
  by (simp add: example_defs processor_defs)

section \<open>Assignment selector: results\<close>

lemma findFirstActive_None: "findFirstActive tbl = None \<longleftrightarrow> filter isActive tbl = []"
proof -
  have "sort_key lastAssignedAt (filter isActive tbl) = [] \<longleftrightarrow> filter isActive tbl = []"
    by (metis length_0_conv length_sort)
  then show ?thesis
    unfolding findFirstActive_def
    by (cases "sort_key lastAssignedAt (filter isActive tbl)") simp_all
qed

lemma findFirstActive_least:
  assumes "p \<in> set tbl" and "isActive p"
      and "\<forall>a\<in>set tbl. isActive a \<and> a \<noteq> p \<longrightarrow> lastAssignedAt p < lastAssignedAt a"
  shows "findFirstActive tbl = Some p"
proof -
  let ?xs = "sort_key lastAssignedAt (filter isActive tbl)"
  have pin: "p \<in> set ?xs" using assms(1,2) by simp
  then obtain y ys where ys: "?xs = y # ys" by (cases ?xs) auto
  have "sorted (map lastAssignedAt ?xs)" by (rule sorted_sort_key)
  then have le: "\<forall>z\<in>set ys. lastAssignedAt y \<le> lastAssignedAt z" by (simp add: ys)
  have yin: "y \<in> set tbl \<and> isActive y"
    using set_sort [of lastAssignedAt "filter isActive tbl"] ys by auto
  have "y = p"
  proof (rule ccontr)
    assume ne: "y \<noteq> p"
    then have "p \<in> set ys" using pin ys by simp
    then have "lastAssignedAt y \<le> lastAssignedAt p" using le by simp
    moreover have "lastAssignedAt p < lastAssignedAt y" using assms(3) yin ne by simp
    ultimately show False by simp
  qed
  then show ?thesis by (simp add: findFirstActive_def ys)
qed

lemma agent_id_inj:
  "distinct (map agent_id tbl) \<Longrightarrow> a \<in> set tbl \<Longrightarrow> b \<in> set tbl \<Longrightarrow> agent_id a = agent_id b \<Longrightarrow> a = b"
  by (auto simp: distinct_map dest: inj_onD)

lemma updateAgent_keeps:
  "q \<in> set tbl \<Longrightarrow> agent_id q \<noteq> i \<Longrightarrow> q \<in> set (updateAgent i f tbl)"
  by (induction tbl) (auto simp: updateAgent_def)

lemma updateAgent_rows:
  "a \<in> set (updateAgent i f tbl) \<Longrightarrow> \<exists>b\<in>set tbl. a = (if agent_id b = i then f b else b)"
  by (induction tbl) (auto simp: updateAgent_def)

lemma updateAgent_ids:
  "(\<And>b. agent_id (f b) = agent_id b) \<Longrightarrow> map agent_id (updateAgent i f tbl) = map agent_id tbl"
  by (induction tbl) (simp_all add: updateAgent_def)

lemma pickAgents_in_order:
  assumes "distinct (map agent_id tbl)"
      and "set P \<subseteq> set tbl" and "\<forall>p\<in>set P. isActive p"
      and "sorted_wrt (<) (map lastAssignedAt P)"
      and "\<forall>a\<in>set tbl. isActive a \<and> a \<notin> set P \<longrightarrow> (\<forall>p\<in>set P. lastAssignedAt p < lastAssignedAt a)"
      and "\<forall>now\<in>set nows. \<forall>p\<in>set P. lastAssignedAt p < Some now"
      and "length nows = length P"
  shows "\<exists>tbl'. pickAgents nows tbl = Inr (P, tbl')"
  using assms
proof (induction P arbitrary: nows tbl)
  case Nil
  then show ?case by simp
next
  case (Cons p P)
  obtain now nows' where nows: "nows = now # nows'" using Cons.prems(7) by (cases nows) auto
  let ?f = "\<lambda>b. b\<lparr>lastAssignedAt := Some now, assignedCount := assignedCount b + 1\<rparr>"
  let ?tbl1 = "updateAgent (agent_id p) ?f tbl"
  have p_in: "p \<in> set tbl" "isActive p" using Cons.prems(2,3) by auto
  have p_lt: "\<forall>q\<in>set P. lastAssignedAt p < lastAssignedAt q" using Cons.prems(4) by simp
  have least: "\<forall>a\<in>set tbl. isActive a \<and> a \<noteq> p \<longrightarrow> lastAssignedAt p < lastAssignedAt a"
  proof (intro ballI impI)
    fix a assume a: "a \<in> set tbl" "isActive a \<and> a \<noteq> p"
    show "lastAssignedAt p < lastAssignedAt a"
    proof (cases "a \<in> set P")
      case True then show ?thesis using p_lt by simp
    next
      case False
      then have "a \<notin> set (p # P)" using a by simp
      then show ?thesis using Cons.prems(5) [rule_format, of a p] a by simp
    qed
  qed
  have first: "pickAgentRoundRobin now tbl = Inr (p, ?tbl1)"
    using findFirstActive_least [OF p_in least] by (simp add: pickAgentRoundRobin_def)
  have ids: "distinct (map agent_id ?tbl1)"
  proof -
    have "map agent_id ?tbl1 = map agent_id tbl"
      by (rule updateAgent_ids) simp
    then show ?thesis using Cons.prems(1) by simp
  qed
  have P_ne: "\<forall>q\<in>set P. q \<noteq> p" using p_lt by auto
  have sub: "set P \<subseteq> set ?tbl1"
  proof
    fix q assume q: "q \<in> set P"
    then have qt: "q \<in> set tbl" using Cons.prems(2) by auto
    have "agent_id q \<noteq> agent_id p"
      using agent_id_inj [OF Cons.prems(1) qt p_in(1)] P_ne q by auto
    with qt show "q \<in> set ?tbl1" by (rule updateAgent_keeps)
  qed
  have act: "\<forall>q\<in>set P. isActive q" using Cons.prems(3) by simp
  have srt: "sorted_wrt (<) (map lastAssignedAt P)" using Cons.prems(4) by simp
  have rest: "\<forall>a\<in>set ?tbl1. isActive a \<and> a \<notin> set P \<longrightarrow> (\<forall>q\<in>set P. lastAssignedAt q < lastAssignedAt a)"
  proof (intro ballI impI)
    fix a q assume a: "a \<in> set ?tbl1" "isActive a \<and> a \<notin> set P" and q: "q \<in> set P"
    from a(1) obtain b where b: "b \<in> set tbl" "a = (if agent_id b = agent_id p then ?f b else b)"
      by (auto dest: updateAgent_rows)
    show "lastAssignedAt q < lastAssignedAt a"
    proof (cases "agent_id b = agent_id p")
      case True
      then have "lastAssignedAt a = Some now" using b by simp
      moreover have "lastAssignedAt q < Some now" using Cons.prems(6) q nows by simp
      ultimately show ?thesis by simp
    next
      case False
      then have ab: "a = b" "a \<noteq> p" using b by auto
      then have "a \<notin> set (p # P)" using a by simp
      then show ?thesis using Cons.prems(5) [rule_format, of a q] b(1) ab a q by simp
    qed
  qed
  have clk: "\<forall>now\<in>set nows'. \<forall>q\<in>set P. lastAssignedAt q < Some now"
    using Cons.prems(6) nows by simp
  have len: "length nows' = length P" using Cons.prems(7) nows by simp
  obtain tbl' where "pickAgents nows' ?tbl1 = Inr (P, tbl')"
    using Cons.IH [OF ids sub act srt rest clk len] by blast
  then show ?case by (simp add: nows first)
qed

lemma distinct_map_insort_key:
  "distinct (map f (insort_key f x xs)) = (f x \<notin> f ` set xs \<and> distinct (map f xs))"
  by (induction xs) (auto simp: set_insort_key)

lemma distinct_map_sort_key: "distinct (map f (sort_key f xs)) = distinct (map f xs)"
  by (induction xs) (simp_all add: distinct_map_insort_key)

text \<open>
  Claim C5, amended. Take a roster whose rows have distinct ids and whose active rows have
  pairwise distinct last-assigned timestamps (at most one of them never assigned), and as
  many consecutive calls of the selector as there are active rows, each call reading a clock
  value later than every timestamp stored for an active row. Then the calls return exactly
  the active rows in ascending order of their prior timestamps: every active row once, no
  inactive row. A call fails (with "no active agents") exactly when no row is active.
\<close>

theorem round_robin_fair:
  assumes "distinct (map agent_id tbl)"
      and "distinct (map lastAssignedAt (filter isActive tbl))"
      and "length nows = length (filter isActive tbl)"
      and "\<forall>now\<in>set nows. \<forall>a\<in>set tbl. isActive a \<longrightarrow> lastAssignedAt a < Some now"
  shows "(\<exists>tbl'. pickAgents nows tbl = Inr (sort_key lastAssignedAt (filter isActive tbl), tbl'))
       \<and> set (sort_key lastAssignedAt (filter isActive tbl)) = {a \<in> set tbl. isActive a}
       \<and> distinct (sort_key lastAssignedAt (filter isActive tbl))
       \<and> sorted_wrt (<) (map lastAssignedAt (sort_key lastAssignedAt (filter isActive tbl)))
       \<and> ((\<exists>e. pickAgentRoundRobin now tbl = Inl e) \<longleftrightarrow> filter isActive tbl = [])"
proof -
  let ?P = "sort_key lastAssignedAt (filter isActive tbl)"
  have set_P: "set ?P = {a \<in> set tbl. isActive a}" by auto
  have "distinct tbl" using assms(1) by (simp add: distinct_map)
  then have dist_P: "distinct ?P" by simp
  have "sorted (map lastAssignedAt ?P)" by (rule sorted_sort_key)
  moreover have "distinct (map lastAssignedAt ?P)"
    using assms(2) by (simp only: distinct_map_sort_key)
  ultimately have strict: "sorted_wrt (<) (map lastAssignedAt ?P)"
    by (simp add: strict_sorted_iff)
  have sub: "set ?P \<subseteq> set tbl" and act: "\<forall>p\<in>set ?P. isActive p"
    by auto
  have others: "\<forall>a\<in>set tbl. isActive a \<and> a \<notin> set ?P \<longrightarrow> (\<forall>p\<in>set ?P. lastAssignedAt p < lastAssignedAt a)"
    by auto
  have later: "\<forall>now\<in>set nows. \<forall>p\<in>set ?P. lastAssignedAt p < Some now"
    using assms(4) by auto
  have len: "length nows = length ?P" using assms(3) by simp
  have picks: "\<exists>tbl'. pickAgents nows tbl = Inr (?P, tbl')"
    using assms(1) sub act strict others later len by (rule pickAgents_in_order)
  have fails: "(\<exists>e. pickAgentRoundRobin now tbl = Inl e) \<longleftrightarrow> filter isActive tbl = []"
    using findFirstActive_None [of tbl]
    by (cases "findFirstActive tbl") (auto simp: pickAgentRoundRobin_def)
  show ?thesis using picks set_P dist_P strict fails by (intro conjI)
qed

theorem round_robin_fair_witness:
  "map_sum id (\<lambda>r. map agent_name (fst r)) (pickAgents [1000, 1001, 1002] example_roster)
     = Inr [''Emily Davis'', ''Dana Lee'', ''Sarah Johnson'']"
proof -
  have h1: "distinct (map agent_id example_roster)"
    by (simp add: example_roster_def example_agent_def)
  have h2: "distinct (map lastAssignedAt (filter isActive example_roster))"
    by (simp add: example_roster_def example_agent_def)
  have h3: "length [1000, 1001, 1002 :: int] = length (filter isActive example_roster)"
    by (simp add: example_roster_def example_agent_def)
  have h4: "\<forall>now\<in>set [1000, 1001, 1002 :: int]. \<forall>a\<in>set example_roster.
              isActive a \<longrightarrow> lastAssignedAt a < Some now"
    by (simp add: example_roster_def example_agent_def)
  have srt: "map agent_name (sort_key lastAssignedAt (filter isActive example_roster))
              = [''Emily Davis'', ''Dana Lee'', ''Sarah Johnson'']"
    by (simp add: example_roster_def example_agent_def)
  obtain tbl' where "pickAgents [1000, 1001, 1002] example_roster
      = Inr (sort_key lastAssignedAt (filter isActive example_roster), tbl')"
    using round_robin_fair [OF h1 h2 h3 h4] by blast
  then show ?thesis
    by (simp add: srt del: pickAgents.simps)
qed

text \<open>
  The claim as worded (no condition on the clock) fails when a stored timestamp is ahead of
  the clock: the selector writes the clock reading to the row it returns, that row is still
  the oldest, and the next call returns it again. Here two calls at 1000 and 1001 on a
  roster of two active agents with timestamps 100 and 5000 both return the first.
\<close>

theorem round_robin_clock_behind_counterexample:
  "distinct (map agent_id example_roster_ahead)
   \<and> distinct (map lastAssignedAt (filter isActive example_roster_ahead))
   \<and> length (filter isActive example_roster_ahead) = 2
   \<and> namesPicked [1000, 1001] example_roster_ahead = Some [''Dana Lee'', ''Dana Lee'']"
  by (simp add: example_roster_ahead_def example_agent_def namesPicked_def
      pickAgentRoundRobin_def findFirstActive_def updateAgent_def)

section \<open>Base64url: results\<close>

lemma toBase64_sextets:
  "toBase64 buf = map b64char (sextets buf) @ replicate ((3 - length buf mod 3) mod 3) CHR ''=''"
  by (induction buf rule: toBase64.induct) (simp_all add: numeral_2_eq_2)

lemma byte_bound: "unat (a :: byte) < 256"
proof -
  have "unat a < 2 ^ LENGTH(8)" by (rule unsigned_less)
  then show ?thesis by simp
qed

lemma div_of_parts: "r < n \<Longrightarrow> (k * n + r) div n = (k :: nat)"
  by simp

lemma mod_of_parts: "r < n \<Longrightarrow> (k * n + r) mod n = (r :: nat)"
  by simp

lemma hi_nibble: "y < 256 \<Longrightarrow> y div 16 < (16 :: nat)"
  by simp

lemma hi_pair: "z < 256 \<Longrightarrow> z div 64 < (4 :: nat)"
  by simp

lemma sextet_bounds:
  fixes x y z :: nat
  assumes "x < 256" "y < 256" "z < 256"
  shows "x div 4 < 64" "(x mod 4) * 16 + y div 16 < 64" "(y mod 16) * 4 + z div 64 < 64"
    "z mod 64 < 64" "(y mod 16) * 4 < 64" "(x mod 4) * 16 < 64"
proof -
  have a: "x mod 4 < 4" "y mod 16 < 16" by simp_all
  have b: "y div 16 < 16" "z div 64 < 4" using assms by simp_all
  show "x div 4 < 64" using assms by simp
  show "(x mod 4) * 16 + y div 16 < 64" using a b by linarith
  show "(y mod 16) * 4 + z div 64 < 64" using a b by linarith
  show "z mod 64 < 64" by simp
  show "(y mod 16) * 4 < 64" using a by linarith
  show "(x mod 4) * 16 < 64" using a by linarith
qed

lemma sextets_bound: "s \<in> set (sextets buf) \<Longrightarrow> s < 64"
proof (induction buf arbitrary: s rule: sextets.induct)
  case (1 a b c rest)
  show ?case
    using 1 sextet_bounds [OF byte_bound [of a] byte_bound [of b] byte_bound [of c]] by auto
next
  case (2 a b)
  show ?case
    using 2 sextet_bounds [OF byte_bound [of a] byte_bound [of b] byte_bound [of b]] by auto
next
  case (3 a)
  show ?case
    using 3 sextet_bounds [OF byte_bound [of a] byte_bound [of a] byte_bound [of a]] by auto
next
  case 4
  then show ?case by simp
qed

lemma regroup:
  fixes x y z :: nat
  assumes "y < 256" "z < 256"
  shows "x div 4 * 4 + ((x mod 4) * 16 + y div 16) div 16 = x"
    and "(((x mod 4) * 16 + y div 16) mod 16) * 16 + ((y mod 16) * 4 + z div 64) div 4 = y"
    and "(((y mod 16) * 4 + z div 64) mod 4) * 64 + z mod 64 = z"
    and "(((x mod 4) * 16 + y div 16) mod 16) * 16 + ((y mod 16) * 4) div 4 = y"
    and "x div 4 * 4 + ((x mod 4) * 16) div 16 = x"
proof -
  have d1: "((x mod 4) * 16 + y div 16) div 16 = x mod 4"
    using hi_nibble [OF assms(1)] by (rule div_of_parts)
  have m1: "((x mod 4) * 16 + y div 16) mod 16 = y div 16"
    using hi_nibble [OF assms(1)] by (rule mod_of_parts)
  have d2: "((y mod 16) * 4 + z div 64) div 4 = y mod 16"
    using hi_pair [OF assms(2)] by (rule div_of_parts)
  have m2: "((y mod 16) * 4 + z div 64) mod 4 = z div 64"
    using hi_pair [OF assms(2)] by (rule mod_of_parts)
  show "x div 4 * 4 + ((x mod 4) * 16 + y div 16) div 16 = x"
    by (simp only: d1 div_mult_mod_eq)
  show "(((x mod 4) * 16 + y div 16) mod 16) * 16 + ((y mod 16) * 4 + z div 64) div 4 = y"
    by (simp only: m1 d2 div_mult_mod_eq)
  show "(((y mod 16) * 4 + z div 64) mod 4) * 64 + z mod 64 = z"
    by (simp only: m2 div_mult_mod_eq)
  show "(((x mod 4) * 16 + y div 16) mod 16) * 16 + ((y mod 16) * 4) div 4 = y"
    by (simp only: m1) simp
  show "x div 4 * 4 + ((x mod 4) * 16) div 16 = x"
    by simp
qed

lemma decodeGroups_sextets: "decodeGroups (sextets buf) = buf"
proof (induction buf rule: sextets.induct)
  case (1 a b c rest)
  have "decodeGroups (sextets (a # b # c # rest)) =
      [of_nat (unat a div 4 * 4 + ((unat a mod 4) * 16 + unat b div 16) div 16),
       of_nat ((((unat a mod 4) * 16 + unat b div 16) mod 16) * 16
               + ((unat b mod 16) * 4 + unat c div 64) div 4),
       of_nat ((((unat b mod 16) * 4 + unat c div 64) mod 4) * 64 + unat c mod 64)]
      @ decodeGroups (sextets rest)"
    by (simp only: sextets.simps decodeGroups.simps append_Cons append_Nil)
  also have "\<dots> = [of_nat (unat a), of_nat (unat b), of_nat (unat c)] @ rest"
    by (simp only: regroup [OF byte_bound byte_bound] 1)
  finally show ?case by simp
next
  case (2 a b)
  have "decodeGroups (sextets [a, b]) =
      [of_nat (unat a div 4 * 4 + ((unat a mod 4) * 16 + unat b div 16) div 16),
       of_nat ((((unat a mod 4) * 16 + unat b div 16) mod 16) * 16 + ((unat b mod 16) * 4) div 4)]"
    by (simp only: sextets.simps decodeGroups.simps)
  also have "\<dots> = [of_nat (unat a), of_nat (unat b)]"
    by (simp only: regroup [OF byte_bound byte_bound])
  finally show ?case by simp
next
  case (3 a)
  have "decodeGroups (sextets [a]) = [of_nat (unat a div 4 * 4 + ((unat a mod 4) * 16) div 16)]"
    by (simp only: sextets.simps decodeGroups.simps)
  also have "\<dots> = [of_nat (unat a)]"
    by (simp only: regroup(5) [OF byte_bound byte_bound])
  finally show ?case by simp
next
  case 4
  show ?case by simp
qed

lemma indexOf_nth: "distinct xs \<Longrightarrow> n < length xs \<Longrightarrow> indexOf (xs ! n) xs = Some n"
proof (induction xs arbitrary: n)
  case Nil
  then show ?case by simp
next
  case (Cons x xs)
  show ?case
  proof (cases n)
    case 0
    then show ?thesis by simp
  next
    case (Suc m)
    then have "xs ! m \<in> set xs" using Cons.prems by simp
    then have "xs ! m \<noteq> x" using Cons.prems by auto
    then show ?thesis using Suc Cons by simp
  qed
qed

lemma length_b64chars: "length b64chars = 64"
  by (simp add: b64chars_def)

lemma distinct_b64chars: "distinct b64chars"
  by (simp add: b64chars_def)

lemma b64chars_not_special:
  "CHR ''='' \<notin> set b64chars" "CHR ''-'' \<notin> set b64chars" "CHR ''_'' \<notin> set b64chars"
  by (simp_all add: b64chars_def)

lemma b64char_in: "n < 64 \<Longrightarrow> b64char n \<in> set b64chars"
  by (simp add: b64char_def length_b64chars)

lemma unbase64_b64char: "n < 64 \<Longrightarrow> unbase64 (b64char n) = Some n"
proof -
  assume n: "n < 64"
  then have "b64char n \<in> set b64chars" by (rule b64char_in)
  then have "b64char n \<noteq> CHR ''-''" "b64char n \<noteq> CHR ''_''"
    using b64chars_not_special by auto
  moreover have "indexOf (b64char n) b64chars = Some n"
    unfolding b64char_def using distinct_b64chars n by (simp add: indexOf_nth length_b64chars)
  ultimately show ?thesis by (simp add: unbase64_def)
qed

lemma replace_to_urlSafe:
  "replaceChar CHR ''/'' CHR ''_'' (replaceChar CHR ''+'' CHR ''-'' s) = map urlSafe s"
  by (simp add: replaceChar_def urlSafe_def)

lemma replace_from_urlSafe:
  assumes "CHR ''-'' \<notin> set s" "CHR ''_'' \<notin> set s"
  shows "replaceChar CHR ''_'' CHR ''/'' (replaceChar CHR ''-'' CHR ''+'' (map urlSafe s)) = s"
  using assms by (induction s) (auto simp: replaceChar_def urlSafe_def)

lemma dropWhile_none: "\<forall>x\<in>set xs. \<not> P x \<Longrightarrow> dropWhile P xs = xs"
  by (cases xs) simp_all

lemma stripTrailingEquals_padding:
  assumes "CHR ''='' \<notin> set xs"
  shows "stripTrailingEquals (xs @ replicate k CHR ''='') = xs"
proof -
  have "dropWhile (\<lambda>c. c = CHR ''='') (replicate k CHR ''='' @ rev xs)
          = dropWhile (\<lambda>c. c = CHR ''='') (rev xs)"
    by (induction k) simp_all
  also have "\<dots> = rev xs"
    using assms by (intro dropWhile_none) auto
  finally show ?thesis by (simp add: stripTrailingEquals_def)
qed

lemma takeWhile_padding:
  assumes "CHR ''='' \<notin> set xs"
  shows "takeWhile (\<lambda>c. c \<noteq> CHR ''='') (xs @ replicate k CHR ''='') = xs"
proof -
  have "takeWhile (\<lambda>c. c \<noteq> CHR ''='') (replicate k CHR ''='') = []"
    by (cases k) simp_all
  moreover have "\<forall>x\<in>set xs. x \<noteq> CHR ''=''" using assms by auto
  ultimately show ?thesis by (simp add: takeWhile_append2)
qed

lemma map_filter_unbase64:
  "\<forall>s\<in>set ss. s < 64 \<Longrightarrow> List.map_filter unbase64 (map b64char ss) = ss"
  by (induction ss) (simp_all add: List.map_filter_simps unbase64_b64char)

lemma urlSafe_b64char:
  assumes "s < 64"
  shows "urlSafe (b64char s) \<noteq> CHR ''=''" "urlSafe (b64char s) \<noteq> CHR ''+''"
    "urlSafe (b64char s) \<noteq> CHR ''/''"
proof -
  have "b64char s \<in> set b64chars" using assms by (rule b64char_in)
  then have "b64char s \<noteq> CHR ''=''" using b64chars_not_special(1) by auto
  then show "urlSafe (b64char s) \<noteq> CHR ''=''" by (simp add: urlSafe_def)
  show "urlSafe (b64char s) \<noteq> CHR ''+''" "urlSafe (b64char s) \<noteq> CHR ''/''"
    by (simp_all add: urlSafe_def)
qed

lemma urlSafe_sextets_clean:
  "CHR ''='' \<notin> set (map urlSafe (map b64char (sextets buf)))"
  "CHR ''+'' \<notin> set (map urlSafe (map b64char (sextets buf)))"
  "CHR ''/'' \<notin> set (map urlSafe (map b64char (sextets buf)))"
proof -
  have "c \<noteq> CHR ''='' \<and> c \<noteq> CHR ''+'' \<and> c \<noteq> CHR ''/''"
    if "c \<in> set (map urlSafe (map b64char (sextets buf)))" for c
  proof -
    from that obtain s where s: "s \<in> set (sextets buf)" and c: "c = urlSafe (b64char s)"
      by auto
    from s have "s < 64" by (rule sextets_bound)
    then show ?thesis unfolding c using urlSafe_b64char by blast
  qed
  then show "CHR ''='' \<notin> set (map urlSafe (map b64char (sextets buf)))"
    "CHR ''+'' \<notin> set (map urlSafe (map b64char (sextets buf)))"
    "CHR ''/'' \<notin> set (map urlSafe (map b64char (sextets buf)))"
    by blast+
qed

lemma bufferToBase64Url_chars:
  "bufferToBase64Url buf = map urlSafe (map b64char (sextets buf))"
proof -
  have "urlSafe CHR ''='' = CHR ''=''" by (simp add: urlSafe_def)
  then have "map urlSafe (toBase64 buf) =
      map urlSafe (map b64char (sextets buf)) @ replicate ((3 - length buf mod 3) mod 3) CHR ''=''"
    by (simp add: toBase64_sextets)
  then show ?thesis
    by (simp only: bufferToBase64Url_def replace_to_urlSafe
          stripTrailingEquals_padding [OF urlSafe_sextets_clean(1)])
qed

text \<open>
  Claim C10. Decoding the base64url encoding of any byte buffer gives the buffer back, and
  the encoding contains none of the characters \<open>+\<close>, \<open>/\<close> and \<open>=\<close>.
\<close>

theorem base64url_roundtrip:
  "base64UrlToBuffer (bufferToBase64Url buf) = buf
   \<and> CHR ''+'' \<notin> set (bufferToBase64Url buf)
   \<and> CHR ''/'' \<notin> set (bufferToBase64Url buf)
   \<and> CHR ''='' \<notin> set (bufferToBase64Url buf)"
proof -
  let ?cs = "map b64char (sextets buf)"
  have bound: "\<forall>s\<in>set (sextets buf). s < 64" by (auto intro: sextets_bound)
  have in_alphabet: "\<forall>c\<in>set ?cs. c \<in> set b64chars"
    by (auto intro: b64char_in sextets_bound)
  then have clean: "CHR ''='' \<notin> set ?cs" "CHR ''-'' \<notin> set ?cs" "CHR ''_'' \<notin> set ?cs"
    using b64chars_not_special by blast+
  have restored: "replaceChar CHR ''_'' CHR ''/'' (replaceChar CHR ''-'' CHR ''+'' (map urlSafe ?cs)) = ?cs"
    using clean(2,3) by (rule replace_from_urlSafe)
  have "base64UrlToBuffer (bufferToBase64Url buf)
      = fromBase64 (?cs @ replicate ((4 - length ?cs mod 4) mod 4) CHR ''='')"
    by (simp only: base64UrlToBuffer_def bufferToBase64Url_chars restored Let_def)
  also have "\<dots> = decodeGroups (List.map_filter unbase64 ?cs)"
    by (simp only: fromBase64_def takeWhile_padding [OF clean(1)])
  also have "\<dots> = decodeGroups (sextets buf)"
    using bound by (simp only: map_filter_unbase64)
  also have "\<dots> = buf" by (rule decodeGroups_sextets)
  finally have roundtrip: "base64UrlToBuffer (bufferToBase64Url buf) = buf" .
  have no_plus: "CHR ''+'' \<notin> set (bufferToBase64Url buf)"
    unfolding bufferToBase64Url_chars by (rule urlSafe_sextets_clean)
  have no_slash: "CHR ''/'' \<notin> set (bufferToBase64Url buf)"
    unfolding bufferToBase64Url_chars by (rule urlSafe_sextets_clean)
  have no_eq: "CHR ''='' \<notin> set (bufferToBase64Url buf)"
    unfolding bufferToBase64Url_chars by (rule urlSafe_sextets_clean)
  show ?thesis using roundtrip no_plus no_slash no_eq by (intro conjI)
qed

lemma base64url_example:
  "bufferToBase64Url [0xfb, 0xff, 0xfe, 0x41] = ''-__-QQ''
   \<and> base64UrlToBuffer ''-__-QQ'' = [0xfb, 0xff, 0xfe, 0x41]"
  by (simp add: bufferToBase64Url_def base64UrlToBuffer_def fromBase64_def replaceChar_def
      stripTrailingEquals_def b64char_def b64chars_def unbase64_def List.map_filter_simps Let_def)

section \<open>Lead parser: results\<close>

subsection \<open>Lower case\<close>

lemma lower_not_upper: "l \<in> set lowerChars \<Longrightarrow> l \<notin> set upperChars"
  by (auto simp: lowerChars_def upperChars_def)

lemma toLowerChar_idem: "toLowerChar (toLowerChar c) = toLowerChar c"
proof (cases "map_of (zip upperChars lowerChars) c")
  case None
  then show ?thesis by (simp add: toLowerChar_def)
next
  case (Some l)
  then have "(c, l) \<in> set (zip upperChars lowerChars)" by (rule map_of_SomeD)
  then have "l \<in> set lowerChars" by (rule set_zip_rightD)
  then have "l \<notin> set upperChars" by (rule lower_not_upper)
  then have "l \<notin> fst ` set (zip upperChars lowerChars)"
    by (auto dest: set_zip_leftD)
  then have "map_of (zip upperChars lowerChars) l = None"
    by (simp add: map_of_eq_None_iff)
  then show ?thesis using Some by (simp add: toLowerChar_def)
qed

lemma toLowerCase_idem: "toLowerCase (toLowerCase s) = toLowerCase s"
  by (simp add: toLowerCase_def toLowerChar_idem)

subsection \<open>The matcher only accepts what the pattern means\<close>

lemma langs_ConsI: "x \<in> lang r \<Longrightarrow> y \<in> langs k \<Longrightarrow> x @ y \<in> langs (r # k)"
  by auto

lemma langs_ConsD: "z \<in> langs (r # k) \<Longrightarrow> \<exists>x y. z = x @ y \<and> x \<in> lang r \<and> y \<in> langs k"
  by auto

lemma langs_skipI: "[] \<in> lang r \<Longrightarrow> y \<in> langs k \<Longrightarrow> y \<in> langs (r # k)"
  using langs_ConsI [of "[]" r y k] by simp

lemma lang_StarC_Cons: "p c \<Longrightarrow> x \<in> lang (StarC p) \<Longrightarrow> c # x \<in> lang (StarC p)"
  by simp

lemma lang_PlusC_Cons: "p c \<Longrightarrow> x \<in> lang (StarC p) \<Longrightarrow> c # x \<in> lang (PlusC p)"
  by simp

lemma matchHere_sound:
  "matchHere k s mk = Some (r, mk') \<Longrightarrow> \<exists>x. s = x @ r \<and> x \<in> langs k"
proof (induction k s mk arbitrary: r mk' rule: matchHere.induct)
  case (1 s mk)
  then show ?case by simp
next
  case (2 p k s mk)
  then obtain c cs where s: "s = c # cs" and p: "p c" and m: "matchHere k cs mk = Some (r, mk')"
    by (cases s) (auto split: if_splits)
  from "2.IH" [OF s p m] obtain x where x: "cs = x @ r" "x \<in> langs k" by blast
  have "[c] \<in> lang (Cls p)" using p by simp
  then have "[c] @ x \<in> langs (Cls p # k)" using x(2) by (rule langs_ConsI)
  moreover have "s = ([c] @ x) @ r" using s x(1) by simp
  ultimately show ?case by blast
next
  case (3 k s mk)
  then have "matchHere k s mk = Some (r, mk')" by simp
  from "3.IH" [OF this] obtain x where x: "s = x @ r" "x \<in> langs k" by blast
  have "x \<in> langs (Eps # k)" using _ x(2) by (rule langs_skipI) simp
  with x(1) show ?case by blast
next
  case (4 a b k s mk)
  then have "matchHere (a # b # k) s mk = Some (r, mk')" by simp
  from "4.IH" [OF this] obtain x where x: "s = x @ r" "x \<in> langs (a # b # k)" by blast
  from langs_ConsD [OF x(2)] obtain xa y where y: "x = xa @ y" "xa \<in> lang a" "y \<in> langs (b # k)"
    by blast
  from langs_ConsD [OF y(3)] obtain xb xk where k: "y = xb @ xk" "xb \<in> lang b" "xk \<in> langs k"
    by blast
  have "xa @ xb \<in> lang (Seq a b)" using y(2) k(2) by auto
  then have "(xa @ xb) @ xk \<in> langs (Seq a b # k)" using k(3) by (rule langs_ConsI)
  then have "x \<in> langs (Seq a b # k)" using y(1) k(1) by simp
  with x(1) show ?case by blast
next
  case (5 a b k s mk)
  show ?case
  proof (cases "matchHere (a # k) s mk")
    case None
    then have "matchHere (b # k) s mk = Some (r, mk')" using "5.prems" by simp
    from "5.IH"(2) [OF None this] obtain x where x: "s = x @ r" "x \<in> langs (b # k)" by blast
    from langs_ConsD [OF x(2)] obtain xb xk where k: "x = xb @ xk" "xb \<in> lang b" "xk \<in> langs k"
      by blast
    have "xb \<in> lang (Alt a b)" using k(2) by simp
    then have "xb @ xk \<in> langs (Alt a b # k)" using k(3) by (rule langs_ConsI)
    with x(1) k(1) show ?thesis by blast
  next
    case (Some res)
    then have "matchHere (a # k) s mk = Some (r, mk')" using "5.prems" by simp
    from "5.IH"(1) [OF this] obtain x where x: "s = x @ r" "x \<in> langs (a # k)" by blast
    from langs_ConsD [OF x(2)] obtain xa xk where k: "x = xa @ xk" "xa \<in> lang a" "xk \<in> langs k"
      by blast
    have "xa \<in> lang (Alt a b)" using k(2) by simp
    then have "xa @ xk \<in> langs (Alt a b # k)" using k(3) by (rule langs_ConsI)
    with x(1) k(1) show ?thesis by blast
  qed
next
  case (6 p k s mk)
  have skip: "\<exists>x. s = x @ r \<and> x \<in> langs (StarC p # k)" if "\<exists>x. s = x @ r \<and> x \<in> langs k"
  proof -
    from that obtain x where x: "s = x @ r" "x \<in> langs k" by blast
    have "x \<in> langs (StarC p # k)" using _ x(2) by (rule langs_skipI) simp
    with x(1) show ?thesis by blast
  qed
  show ?case
  proof (cases s)
    case Nil
    then have "matchHere k s mk = Some (r, mk')" using "6.prems" by simp
    from "6.IH"(1) [OF Nil this] show ?thesis by (rule skip)
  next
    case (Cons c cs)
    show ?thesis
    proof (cases "p c")
      case False
      then have "matchHere k s mk = Some (r, mk')" using "6.prems" Cons by simp
      from "6.IH"(4) [OF Cons False this] show ?thesis by (rule skip)
    next
      case True
      show ?thesis
      proof (cases "matchHere (StarC p # k) cs mk")
        case None
        then have "matchHere k s mk = Some (r, mk')" using "6.prems" Cons True by simp
        from "6.IH"(3) [OF Cons True None this] show ?thesis by (rule skip)
      next
        case (Some res)
        then have "matchHere (StarC p # k) cs mk = Some (r, mk')"
          using "6.prems" Cons True by simp
        from "6.IH"(2) [OF Cons True this] obtain x where x: "cs = x @ r" "x \<in> langs (StarC p # k)"
          by blast
        from langs_ConsD [OF x(2)] obtain xs xk where
          k: "x = xs @ xk" "xs \<in> lang (StarC p)" "xk \<in> langs k" by blast
        have "c # xs \<in> lang (StarC p)" using True k(2) by (rule lang_StarC_Cons)
        then have "(c # xs) @ xk \<in> langs (StarC p # k)" using k(3) by (rule langs_ConsI)
        moreover have "s = ((c # xs) @ xk) @ r" using Cons x(1) k(1) by simp
        ultimately show ?thesis by blast
      qed
    qed
  qed
next
  case (7 p k s mk)
  then obtain c cs where s: "s = c # cs" and p: "p c"
    and m: "matchHere (StarC p # k) cs mk = Some (r, mk')"
    by (cases s) (auto split: if_splits)
  from "7.IH" [OF s p m] obtain x where x: "cs = x @ r" "x \<in> langs (StarC p # k)" by blast
  from langs_ConsD [OF x(2)] obtain xs xk where
    k: "x = xs @ xk" "xs \<in> lang (StarC p)" "xk \<in> langs k" by blast
  have "c # xs \<in> lang (PlusC p)" using p k(2) by (rule lang_PlusC_Cons)
  then have "(c # xs) @ xk \<in> langs (PlusC p # k)" using k(3) by (rule langs_ConsI)
  moreover have "s = ((c # xs) @ xk) @ r" using s x(1) k(1) by simp
  ultimately show ?case by blast
next
  case (8 k s mk)
  then have "matchHere k s (Some s) = Some (r, mk')" by simp
  from "8.IH" [OF this] obtain x where x: "s = x @ r" "x \<in> langs k" by blast
  have "x \<in> langs (Mark # k)" using _ x(2) by (rule langs_skipI) simp
  with x(1) show ?case by blast
next
  case (9 k s mk)
  then have e: "s = []" and m: "matchHere k s mk = Some (r, mk')" by (auto split: if_splits)
  from "9.IH" [OF e m] obtain x where x: "s = x @ r" "x \<in> langs k" by blast
  have "x \<in> langs (Eol # k)" using _ x(2) by (rule langs_skipI) simp
  with x(1) show ?case by blast
qed

lemma search_sound:
  "search k s = Some (start, r, mk) \<Longrightarrow>
     \<exists>before x. s = before @ start \<and> start = x @ r \<and> x \<in> langs k"
proof (induction s)
  case Nil
  then obtain r' mk' where m: "matchHere k [] None = Some (r', mk')" and e: "start = []" "r = r'"
    by (auto split: option.splits)
  from matchHere_sound [OF m] e show ?case by auto
next
  case (Cons c cs)
  show ?case
  proof (cases "matchHere k (c # cs) None")
    case None
    then have "search k cs = Some (start, r, mk)" using Cons.prems by simp
    from Cons.IH [OF this] obtain before x where "cs = before @ start" "start = x @ r" "x \<in> langs k"
      by blast
    then have "c # cs = (c # before) @ start" "start = x @ r" "x \<in> langs k" by simp_all
    then show ?thesis by blast
  next
    case (Some res)
    then have m: "matchHere k (c # cs) None = Some (r, mk)" and e: "start = c # cs"
      using Cons.prems by (auto split: prod.splits)
    from matchHere_sound [OF m] obtain x where "c # cs = x @ r" "x \<in> langs k" by blast
    then have "c # cs = [] @ start" "start = x @ r" "x \<in> langs k" using e by simp_all
    then show ?thesis by blast
  qed
qed

lemma upTo_append: "upTo (x @ r) r = x"
  by (simp add: upTo_def)

lemma langs_appendD:
  "z \<in> langs (k1 @ k2) \<Longrightarrow> \<exists>x y. z = x @ y \<and> x \<in> langs k1 \<and> y \<in> langs k2"
proof (induction k1 arbitrary: z)
  case Nil
  then show ?case by simp
next
  case (Cons r k1)
  have "z \<in> langs (r # (k1 @ k2))" using Cons.prems by (simp only: append_Cons)
  from langs_ConsD [OF this] obtain a b where
    ab: "z = a @ b" "a \<in> lang r" "b \<in> langs (k1 @ k2)" by blast
  from Cons.IH [OF ab(3)] obtain x y where xy: "b = x @ y" "x \<in> langs k1" "y \<in> langs k2" by blast
  have "a @ x \<in> langs (r # k1)" using ab(2) xy(2) by (rule langs_ConsI)
  moreover have "z = (a @ x) @ y" using ab(1) xy(1) by simp
  ultimately show ?case using xy(3) by blast
qed

subsection \<open>Email shapes\<close>

lemma five_parts:
  assumes "x \<in> langs [PlusC p, chr CHR ''@'', PlusC q, chr CHR ''.'', r]"
  shows "\<exists>l d t. x = l @ ''@'' @ d @ ''.'' @ t \<and> l \<noteq> [] \<and> d \<noteq> [] \<and> t \<in> lang r
            \<and> (\<forall>c\<in>set l. p c) \<and> (\<forall>c\<in>set d. q c)"
proof -
  from langs_ConsD [OF assms] obtain l x1 where
    1: "x = l @ x1" "l \<in> lang (PlusC p)" "x1 \<in> langs [chr CHR ''@'', PlusC q, chr CHR ''.'', r]"
    by blast
  from langs_ConsD [OF 1(3)] obtain a x2 where
    2: "x1 = a @ x2" "a \<in> lang (chr CHR ''@'')" "x2 \<in> langs [PlusC q, chr CHR ''.'', r]"
    by blast
  from langs_ConsD [OF 2(3)] obtain d x3 where
    3: "x2 = d @ x3" "d \<in> lang (PlusC q)" "x3 \<in> langs [chr CHR ''.'', r]"
    by blast
  from langs_ConsD [OF 3(3)] obtain b x4 where
    4: "x3 = b @ x4" "b \<in> lang (chr CHR ''.'')" "x4 \<in> langs [r]"
    by blast
  from langs_ConsD [OF 4(3)] obtain t x5 where
    5: "x4 = t @ x5" "t \<in> lang r" "x5 \<in> langs []"
    by blast
  have a: "a = ''@''" and b: "b = ''.''" using 2(2) 4(2) by (simp_all add: chr_def)
  have "x = l @ ''@'' @ d @ ''.'' @ t" using 1(1) 2(1) 3(1) 4(1) 5(1,3) a b by simp
  moreover have "l \<noteq> []" "\<forall>c\<in>set l. p c" "d \<noteq> []" "\<forall>c\<in>set d. q c" using 1(2) 3(2) by simp_all
  ultimately show ?thesis using 5(2) by blast
qed

lemma addrShape_shaped: "x \<in> langs addrShape \<Longrightarrow> shaped x"
proof -
  assume "x \<in> langs addrShape"
  then have "x \<in> langs [PlusC isAddrChar, chr CHR ''@'', PlusC isAddrChar, chr CHR ''.'', PlusC isAddrChar]"
    by (simp only: addrShape_def)
  from five_parts [OF this] obtain l d t where
    "x = l @ ''@'' @ d @ ''.'' @ t" "l \<noteq> []" "d \<noteq> []" "t \<in> lang (PlusC isAddrChar)"
    "\<forall>c\<in>set l. isAddrChar c" "\<forall>c\<in>set d. isAddrChar c" by blast
  then have "x = l @ ''@'' @ d @ ''.'' @ t \<and> l \<noteq> [] \<and> d \<noteq> [] \<and> t \<noteq> []
                 \<and> (\<forall>c \<in> set (l @ d @ t). isAddrChar c)"
    by auto
  then show "shaped x" unfolding shaped_def by blast
qed

lemma letter_is_addr: "isLetter c \<Longrightarrow> isAddrChar c"
  by (auto simp: isLetter_def isAddrChar_def isSpace_def)

lemma digit_is_addr: "isDigit c \<Longrightarrow> isAddrChar c"
  by (auto simp: isDigit_def isAddrChar_def isSpace_def)

lemma local_is_addr: "isLocalChar c \<Longrightarrow> isAddrChar c"
  unfolding isLocalChar_def using letter_is_addr digit_is_addr
  by (auto simp: isAddrChar_def isSpace_def)

lemma domain_is_addr: "isDomainChar c \<Longrightarrow> isAddrChar c"
  unfolding isDomainChar_def using letter_is_addr digit_is_addr
  by (auto simp: isAddrChar_def isSpace_def)

lemma emailRegex_shaped: "x \<in> langs emailRegex \<Longrightarrow> shaped x"
proof -
  assume "x \<in> langs emailRegex"
  then have "x \<in> langs ([PlusC isLocalChar, chr CHR ''@'', PlusC isDomainChar, chr CHR ''.'']
                          @ [Cls isLetter, PlusC isLetter])"
    by (simp only: emailRegex_def append_Cons append_Nil)
  from langs_appendD [OF this] obtain y z where
    yz: "x = y @ z" "y \<in> langs [PlusC isLocalChar, chr CHR ''@'', PlusC isDomainChar, chr CHR ''.'']"
    "z \<in> langs [Cls isLetter, PlusC isLetter]" by blast
  have "[] \<in> lang Eps" by simp
  then have "y @ [] \<in> langs ([PlusC isLocalChar, chr CHR ''@'', PlusC isDomainChar, chr CHR ''.''] @ [Eps])"
    using yz(2) by auto
  then have "y \<in> langs [PlusC isLocalChar, chr CHR ''@'', PlusC isDomainChar, chr CHR ''.'', Eps]"
    by simp
  from five_parts [OF this] obtain l d where
    ld: "y = l @ ''@'' @ d @ ''.''" "l \<noteq> []" "d \<noteq> []"
    "\<forall>c\<in>set l. isLocalChar c" "\<forall>c\<in>set d. isDomainChar c" by auto
  from yz(3) obtain c cs where z: "z = c # cs" "isLetter c" "\<forall>e\<in>set cs. isLetter e"
    by auto
  have "\<forall>e \<in> set (l @ d @ z). isAddrChar e"
    using ld(4,5) z local_is_addr domain_is_addr letter_is_addr by auto
  moreover have "x = l @ ''@'' @ d @ ''.'' @ z" using yz(1) ld(1) by simp
  moreover have "z \<noteq> []" using z(1) by simp
  ultimately show "shaped x" unfolding shaped_def using ld(2,3) by blast
qed

lemma shaped_nonempty: "shaped x \<Longrightarrow> x \<noteq> []"
  by (auto simp: shaped_def)

lemma hasEmailShape_iff: "hasEmailShape text \<longleftrightarrow> (\<exists>before x after. text = before @ x @ after \<and> shaped x)"
proof
  assume "hasEmailShape text"
  then obtain before l d t after where
    "text = before @ l @ ''@'' @ d @ ''.'' @ t @ after" "l \<noteq> []" "d \<noteq> []" "t \<noteq> []"
    "\<forall>c \<in> set (l @ d @ t). isAddrChar c"
    unfolding hasEmailShape_def by blast
  then have "text = before @ (l @ ''@'' @ d @ ''.'' @ t) @ after" "shaped (l @ ''@'' @ d @ ''.'' @ t)"
    unfolding shaped_def by auto
  then show "\<exists>before x after. text = before @ x @ after \<and> shaped x" by blast
next
  assume "\<exists>before x after. text = before @ x @ after \<and> shaped x"
  then obtain before x after where t: "text = before @ x @ after" and "shaped x" by blast
  then obtain l d t where "x = l @ ''@'' @ d @ ''.'' @ t" "l \<noteq> []" "d \<noteq> []" "t \<noteq> []"
    "\<forall>c \<in> set (l @ d @ t). isAddrChar c"
    unfolding shaped_def by blast
  then have "text = before @ l @ ''@'' @ d @ ''.'' @ t @ after \<and> l \<noteq> [] \<and> d \<noteq> [] \<and> t \<noteq> []
      \<and> (\<forall>c \<in> set (l @ d @ t). isAddrChar c)"
    using t by simp
  then show "hasEmailShape text" unfolding hasEmailShape_def by blast
qed

lemma search_shape:
  assumes "search k text = Some (start, r, mk)"
      and "\<And>x. x \<in> langs k \<Longrightarrow> \<exists>y z. x = y @ z \<and> shaped z"
  shows "hasEmailShape text"
proof -
  from search_sound [OF assms(1)] obtain before x where
    x: "text = before @ start" "start = x @ r" "x \<in> langs k" by blast
  from assms(2) [OF x(3)] obtain y z where z: "x = y @ z" "shaped z" by blast
  have "text = (before @ y) @ z @ r" using x z by simp
  then show ?thesis using z(2) unfolding hasEmailShape_iff by blast
qed

lemma labeledEmail_shape: "x \<in> langs (labeledEmail labels) \<Longrightarrow> \<exists>y z. x = y @ z \<and> shaped z"
proof -
  assume "x \<in> langs (labeledEmail labels)"
  then obtain y z where "x = y @ z" "z \<in> langs addrShape"
    unfolding labeledEmail_def by (blast dest: langs_appendD)
  then show ?thesis using addrShape_shaped by blast
qed

lemma no_shape_matchGroup1:
  "\<not> hasEmailShape text \<Longrightarrow> matchGroup1 (labeledEmail labels) text = None"
proof (rule ccontr)
  assume no: "\<not> hasEmailShape text" and "matchGroup1 (labeledEmail labels) text \<noteq> None"
  then obtain start r mk where "search (labeledEmail labels) text = Some (start, r, mk)"
    by (auto simp: matchGroup1_def split: option.splits)
  then have "hasEmailShape text" using labeledEmail_shape by (rule search_shape)
  with no show False by simp
qed

lemma no_shape_firstLabeledEmail:
  "\<not> hasEmailShape text \<Longrightarrow> firstLabeledEmail (map labeledEmail labelss) text = None"
  by (induction labelss) (simp_all add: no_shape_matchGroup1)

lemma matchAll_Nil: "search k s = None \<Longrightarrow> matchAll k s = []"
  by (subst matchAll.simps) simp

lemma no_shape_extractEmails: "\<not> hasEmailShape text \<Longrightarrow> extractEmails text = []"
proof -
  assume no: "\<not> hasEmailShape text"
  have "search emailRegex text = None"
  proof (rule ccontr)
    assume "search emailRegex text \<noteq> None"
    then obtain start r mk where s: "search emailRegex text = Some (start, r, mk)" by auto
    have "\<exists>y z. x = y @ z \<and> shaped z" if "x \<in> langs emailRegex" for x
      using emailRegex_shaped [OF that] by (metis append_Nil)
    with s have "hasEmailShape text" by (rule search_shape)
    with no show False by simp
  qed
  then show ?thesis by (simp add: extractEmails_def matchAll_Nil uniq_def)
qed

subsection \<open>The recognizers without an email shape in the text\<close>

lemma missing_None [simp]: "missing None"
  by (simp add: missing_def)

lemma first_Nil [simp]: "first [] = None"
  by (simp add: first_def)

lemma no_shape_recognize:
  assumes "\<not> hasEmailShape text"
  shows "recognize fx src sig (map labeledEmail labelss) keep text subject = None"
  using assms
  by (simp add: recognize_def Let_def no_shape_firstLabeledEmail no_shape_extractEmails)

lemma patterns_as_map:
  "zillowEmailPatterns = map labeledEmail [[''Email'', ''E-mail'', ''Contact Email'']]"
  "realtorEmailPatterns = map labeledEmail [[''Email'', ''E-mail''], [''Contact'', ''Reply to'']]"
  "facebookEmailPatterns = map labeledEmail [[''email'', ''e-mail'', ''email_address'']]"
  by (simp_all add: zillowEmailPatterns_def realtorEmailPatterns_def facebookEmailPatterns_def)

lemma no_shape_parsers:
  assumes "\<not> hasEmailShape text"
  shows "parseZillowLead fx text subject = None"
    and "parseRealtorLead fx text subject = None"
    and "parseFacebookLead fx text subject = None"
    and "parseGenericLead fx text subject = None"
proof -
  show "parseZillowLead fx text subject = None"
    unfolding parseZillowLead_def patterns_as_map using assms by (rule no_shape_recognize)
  show "parseRealtorLead fx text subject = None"
    unfolding parseRealtorLead_def patterns_as_map using assms by (rule no_shape_recognize)
  show "parseFacebookLead fx text subject = None"
    unfolding parseFacebookLead_def patterns_as_map using assms by (rule no_shape_recognize)
  show "parseGenericLead fx text subject = None"
    using assms by (simp add: parseGenericLead_def Let_def no_shape_extractEmails)
qed

subsection \<open>The loop over the recognizers\<close>

lemma tryParsers_find:
  "tryParsers ps fx text subject =
     (case find usable (map (\<lambda>p. p fx text subject) ps) of
        Some (Some ld) \<Rightarrow> Inr ld
      | _ \<Rightarrow> Inl NoValidEmail)"
  by (induction ps) (auto simp: usable_def split: option.splits)

lemma tryParsers_Inr:
  "tryParsers ps fx text subject = Inr ld \<Longrightarrow>
     \<exists>p \<in> set ps. p fx text subject = Some ld \<and> isValidEmail (ld_email ld)"
  by (induction ps) (auto split: option.splits if_splits)

lemma tryParsers_Inl:
  "(\<exists>e. tryParsers ps fx text subject = Inl e) \<longleftrightarrow>
     (\<forall>p \<in> set ps. \<not> usable (p fx text subject))"
  by (induction ps) (auto simp: usable_def split: option.splits)

subsection \<open>Lower case of the reported email\<close>

lemma set_uniq [simp]: "set (uniq xs) = set xs"
  by (simp add: uniq_def)

lemma extractEmails_lower: "e \<in> set (extractEmails text) \<Longrightarrow> toLowerCase e = e"
  by (auto simp: extractEmails_def toLowerCase_idem)

lemma firstLabeledEmail_lower: "firstLabeledEmail ps text = Some e \<Longrightarrow> toLowerCase e = e"
  by (induction ps) (auto simp: toLowerCase_idem split: option.splits if_splits)

lemma first_in_set: "first xs = Some x \<Longrightarrow> x \<in> set xs"
  by (cases xs) (simp_all add: first_def)

lemma candidate_email [simp]: "ld_email (candidate fx src text subject e) = e"
  by (simp add: candidate_def)

lemma recognize_lower:
  assumes "recognize fx src sig ps keep text subject = Some ld"
  shows "toLowerCase (ld_email ld) = ld_email ld"
proof (cases "missing (firstLabeledEmail ps text)")
  case True
  then obtain e where e: "first (filter keep (extractEmails text)) = Some e" "ld_email ld = e"
    using assms by (auto simp: recognize_def Let_def missing_def split: if_splits option.splits)
  from first_in_set [OF e(1)] have "e \<in> set (extractEmails text)" by simp
  then show ?thesis using e(2) by (simp add: extractEmails_lower)
next
  case False
  then obtain e where e: "firstLabeledEmail ps text = Some e" "ld_email ld = e"
    using assms by (auto simp: recognize_def Let_def missing_def split: if_splits option.splits)
  then show ?thesis by (simp add: firstLabeledEmail_lower)
qed

lemma generic_lower:
  assumes "parseGenericLead fx text subject = Some ld"
  shows "toLowerCase (ld_email ld) = ld_email ld"
proof -
  from assms obtain e es where e: "filter genericKeep (extractEmails text) = e # es" "ld_email ld = e"
    by (auto simp: parseGenericLead_def Let_def split: list.splits)
  then have "e \<in> set (filter genericKeep (extractEmails text))" by simp
  then have "e \<in> set (extractEmails text)" by simp
  then show ?thesis using e(2) by (simp add: extractEmails_lower)
qed

lemma parsers_lower:
  assumes "p \<in> set parsers" and "p fx text subject = Some ld"
  shows "toLowerCase (ld_email ld) = ld_email ld"
proof -
  from assms(1) consider "p = parseZillowLead" | "p = parseRealtorLead"
    | "p = parseFacebookLead" | "p = parseGenericLead"
    by (auto simp: parsers_def)
  then show ?thesis
  proof cases
    case 1 then show ?thesis using assms(2) unfolding parseZillowLead_def by (auto dest: recognize_lower)
  next
    case 2 then show ?thesis using assms(2) unfolding parseRealtorLead_def by (auto dest: recognize_lower)
  next
    case 3 then show ?thesis using assms(2) unfolding parseFacebookLead_def by (auto dest: recognize_lower)
  next
    case 4 then show ?thesis using assms(2) by (auto dest: generic_lower)
  qed
qed

text \<open>
  Claim C3. \<open>parseLeadFromText\<close> returns the candidate of the first recognizer, in the
  order Zillow, Realtor, Facebook, generic, whose candidate has a valid email; the email
  returned is valid and in lower case; it throws exactly when no recognizer gives such a
  candidate, and it throws for every text without an email-shaped substring.
\<close>

theorem parseLeadFromText_chain:
  "parsers = [parseZillowLead, parseRealtorLead, parseFacebookLead, parseGenericLead]
   \<and> parseLeadFromText fx text subject =
       (case find usable (map (\<lambda>p. p fx text subject) parsers) of
          Some (Some ld) \<Rightarrow> Inr ld
        | _ \<Rightarrow> Inl NoValidEmail)
   \<and> (\<forall>ld. parseLeadFromText fx text subject = Inr ld \<longrightarrow>
         isValidEmail (ld_email ld) \<and> toLowerCase (ld_email ld) = ld_email ld)
   \<and> ((\<exists>e. parseLeadFromText fx text subject = Inl e) \<longleftrightarrow>
         (\<forall>p \<in> set parsers. \<not> usable (p fx text subject)))
   \<and> (\<not> hasEmailShape text \<longrightarrow> parseLeadFromText fx text subject = Inl NoValidEmail)"
proof -
  have order: "parsers = [parseZillowLead, parseRealtorLead, parseFacebookLead, parseGenericLead]"
    by (rule parsers_def)
  have chain: "parseLeadFromText fx text subject =
       (case find usable (map (\<lambda>p. p fx text subject) parsers) of
          Some (Some ld) \<Rightarrow> Inr ld
        | _ \<Rightarrow> Inl NoValidEmail)"
    unfolding parseLeadFromText_def by (rule tryParsers_find)
  have good: "\<forall>ld. parseLeadFromText fx text subject = Inr ld \<longrightarrow>
         isValidEmail (ld_email ld) \<and> toLowerCase (ld_email ld) = ld_email ld"
  proof (intro allI impI)
    fix ld assume "parseLeadFromText fx text subject = Inr ld"
    then obtain p where "p \<in> set parsers" "p fx text subject = Some ld" "isValidEmail (ld_email ld)"
      unfolding parseLeadFromText_def by (blast dest: tryParsers_Inr)
    then show "isValidEmail (ld_email ld) \<and> toLowerCase (ld_email ld) = ld_email ld"
      using parsers_lower by blast
  qed
  have throws: "(\<exists>e. parseLeadFromText fx text subject = Inl e) \<longleftrightarrow>
         (\<forall>p \<in> set parsers. \<not> usable (p fx text subject))"
    unfolding parseLeadFromText_def by (rule tryParsers_Inl)
  have none: "\<not> hasEmailShape text \<longrightarrow> parseLeadFromText fx text subject = Inl NoValidEmail"
  proof
    assume "\<not> hasEmailShape text"
    then show "parseLeadFromText fx text subject = Inl NoValidEmail"
      by (simp add: parseLeadFromText_def parsers_def no_shape_parsers)
  qed
  show ?thesis using order chain good throws none by (intro conjI)
qed

lemma no_at_no_shape: "CHR ''@'' \<notin> set text \<Longrightarrow> \<not> hasEmailShape text"
  by (auto simp: hasEmailShape_def)

theorem parseLeadFromText_chain_witness:
  "map_sum id ld_email (parseLeadFromText example_fields example_generic_text []) = Inr ''john@example.com''
   \<and> isValidEmail ''john@example.com''
   \<and> toLowerCase ''john@example.com'' = ''john@example.com''
   \<and> parseLeadFromText example_fields ''Please call me at 555-123-4567'' ''Hello'' = Inl NoValidEmail"
proof -
  have r: "map_sum id ld_email (parseLeadFromText example_fields example_generic_text [])
             = Inr ''john@example.com''"
    by code_simp
  then obtain ld where ld: "parseLeadFromText example_fields example_generic_text [] = Inr ld"
    "ld_email ld = ''john@example.com''"
    by (cases "parseLeadFromText example_fields example_generic_text []") auto
  have "\<not> hasEmailShape ''Please call me at 555-123-4567''"
    by (rule no_at_no_shape) simp
  then have t: "parseLeadFromText example_fields ''Please call me at 555-123-4567'' ''Hello'' = Inl NoValidEmail"
    using parseLeadFromText_chain [of example_fields "''Please call me at 555-123-4567''" "''Hello''"]
    by blast
  have "isValidEmail (ld_email ld) \<and> toLowerCase (ld_email ld) = ld_email ld"
    using parseLeadFromText_chain [of example_fields example_generic_text "[]"] ld(1) by blast
  then show ?thesis using r t ld(2) by simp
qed

text \<open>
  The shape used above is the one of the validity check, which is wider than the pattern of
  \<open>extractEmails\<close>: that pattern wants at least two letters after the last dot.  A labeled
  field can therefore report an address that \<open>extractEmails\<close> does not find in the same text.
\<close>

lemma labeled_email_short_domain_ending:
  "extractEmails ''Email: a@b.c'' = []
   \<and> map_sum id ld_email (parseLeadFromText example_fields ''Email: a@b.c'' ''zillow'') = Inr ''a@b.c''"
  by code_simp

subsection \<open>The fallback to extracted addresses\<close>

lemma matchAll_langs: "x \<in> set (matchAll k s) \<Longrightarrow> x \<in> langs k"
proof (induction k s arbitrary: x rule: matchAll.induct)
  case (1 k s)
  show ?case
  proof (cases "search k s")
    case None
    then show ?thesis using "1.prems" by (simp add: matchAll_Nil)
  next
    case (Some res)
    obtain start rest mk where res: "res = (start, rest, mk)" by (cases res)
    from search_sound [OF Some [unfolded res]] obtain y where
      y: "start = y @ rest" "y \<in> langs k" by blast
    have head: "upTo start rest \<in> langs k" using y by (simp add: upTo_append)
    have eq: "matchAll k s = upTo start rest #
          (if rest = start then
             (case start of
                [] \<Rightarrow> []
              | _ # later \<Rightarrow> if length later < length s then matchAll k later else [])
           else if length rest < length s then matchAll k rest else [])"
      using Some res by (subst matchAll.simps) simp
    show ?thesis
    proof (cases "x = upTo start rest")
      case True
      then show ?thesis using head by simp
    next
      case False
      show ?thesis
      proof (cases "rest = start")
        case same: True
        have "x \<in> set (case start of
                [] \<Rightarrow> []
              | _ # later \<Rightarrow> if length later < length s then matchAll k later else [])"
          using "1.prems" False same unfolding eq by simp
        then obtain c later where st: "start = c # later" "length later < length s"
          "x \<in> set (matchAll k later)"
          by (cases start) (auto split: if_splits)
        from "1.IH"(1) [OF Some res [symmetric] refl same st(1) st(2) st(3)] show ?thesis .
      next
        case differ: False
        have "x \<in> set (if length rest < length s then matchAll k rest else [])"
          using "1.prems" False differ unfolding eq by simp
        then have l: "length rest < length s" and x: "x \<in> set (matchAll k rest)"
          by (auto split: if_splits)
        from "1.IH"(2) [OF Some res [symmetric] refl differ l x] show ?thesis .
      qed
    qed
  qed
qed

lemma extractEmails_nonempty: "e \<in> set (extractEmails text) \<Longrightarrow> e \<noteq> []"
proof -
  assume "e \<in> set (extractEmails text)"
  then obtain x where x: "x \<in> set (matchAll emailRegex text)" "e = toLowerCase x"
    by (auto simp: extractEmails_def)
  from matchAll_langs [OF x(1)] have "shaped x" by (rule emailRegex_shaped)
  then have "x \<noteq> []" by (rule shaped_nonempty)
  then show ?thesis using x(2) by (simp add: toLowerCase_def)
qed

lemma first_extracted_present:
  "missing (first (filter keep (extractEmails text))) \<longleftrightarrow> first (filter keep (extractEmails text)) = None"
proof (cases "first (filter keep (extractEmails text))")
  case None
  then show ?thesis by simp
next
  case (Some e)
  from first_in_set [OF this] have "e \<in> set (extractEmails text)" by simp
  then have "e \<noteq> []" by (rule extractEmails_nonempty)
  then show ?thesis using Some by (simp add: missing_def)
qed

lemma recognize_fallback:
  assumes "sig" and "firstLabeledEmail ps text = None"
  shows "map_option ld_email (recognize fx src sig ps keep text subject)
           = first (filter keep (extractEmails text))"
  using assms first_extracted_present [of keep "text"]
  by (cases "first (filter keep (extractEmails text))") (simp_all add: recognize_def Let_def)

lemma generic_email:
  "map_option ld_email (parseGenericLead fx text subject) = first (filter genericKeep (extractEmails text))"
  by (simp add: parseGenericLead_def Let_def first_def split: list.splits)

lemma startsWith_append: "startsWith s (p @ q) \<Longrightarrow> startsWith s p"
  by (induction s p rule: startsWith.induct) simp_all

lemma includesStr_append: "includesStr s (p @ q) \<Longrightarrow> includesStr s p"
  by (induction s) (auto dest: startsWith_append)

lemma zillowKeep_simple: "zillowKeep e = (\<not> includesStr e ''zillow'')"
  using includesStr_append [of e "''zillow''" "''group''"] by (auto simp: zillowKeep_def)

text \<open>
  Claim C4, amended. When its signature holds and no labeled email pattern gives an email,
  a source-specific recognizer reports the first extracted address, in text order, that
  survives its own exclusion list, and no match when none survives. The lists differ and
  test for a substring of the address: Zillow drops addresses containing \<open>zillow\<close>;
  Realtor drops addresses containing \<open>realtor.com\<close>, \<open>move.com\<close> or \<open>noreply\<close>; the
  generic fallback, which has no labeled pattern, drops addresses containing \<open>noreply\<close>,
  \<open>no-reply\<close>, \<open>donotreply\<close>, \<open>mailer-daemon\<close> or \<open>postmaster\<close>.
\<close>

theorem fallback_email_filters:
  "(isZillow text subject \<and> firstLabeledEmail zillowEmailPatterns text = None \<longrightarrow>
      map_option ld_email (parseZillowLead fx text subject)
        = first (filter (\<lambda>e. \<not> includesStr e ''zillow'') (extractEmails text)))
   \<and> (isRealtor text subject \<and> firstLabeledEmail realtorEmailPatterns text = None \<longrightarrow>
      map_option ld_email (parseRealtorLead fx text subject)
        = first (filter (\<lambda>e. \<not> includesStr e ''realtor.com'' \<and> \<not> includesStr e ''move.com''
                              \<and> \<not> includesStr e ''noreply'') (extractEmails text)))
   \<and> map_option ld_email (parseGenericLead fx text subject)
        = first (filter (\<lambda>e. \<not> includesStr e ''noreply'' \<and> \<not> includesStr e ''no-reply''
                              \<and> \<not> includesStr e ''donotreply'' \<and> \<not> includesStr e ''mailer-daemon''
                              \<and> \<not> includesStr e ''postmaster'') (extractEmails text))"
proof -
  have z: "zillowKeep = (\<lambda>e. \<not> includesStr e ''zillow'')"
    by (rule ext) (rule zillowKeep_simple)
  have r: "realtorKeep = (\<lambda>e. \<not> includesStr e ''realtor.com'' \<and> \<not> includesStr e ''move.com''
                              \<and> \<not> includesStr e ''noreply'')"
    by (rule ext) (simp add: realtorKeep_def)
  have g: "genericKeep = (\<lambda>e. \<not> includesStr e ''noreply'' \<and> \<not> includesStr e ''no-reply''
                              \<and> \<not> includesStr e ''donotreply'' \<and> \<not> includesStr e ''mailer-daemon''
                              \<and> \<not> includesStr e ''postmaster'')"
    by (rule ext) (simp add: genericKeep_def)
  have zillow: "isZillow text subject \<and> firstLabeledEmail zillowEmailPatterns text = None \<longrightarrow>
      map_option ld_email (parseZillowLead fx text subject) = first (filter zillowKeep (extractEmails text))"
    unfolding parseZillowLead_def by (auto intro: recognize_fallback)
  have realtor: "isRealtor text subject \<and> firstLabeledEmail realtorEmailPatterns text = None \<longrightarrow>
      map_option ld_email (parseRealtorLead fx text subject) = first (filter realtorKeep (extractEmails text))"
    unfolding parseRealtorLead_def by (auto intro: recognize_fallback)
  have generic: "map_option ld_email (parseGenericLead fx text subject)
      = first (filter genericKeep (extractEmails text))"
    by (rule generic_email)
  show ?thesis
    using zillow realtor generic unfolding z r g by (intro conjI)
qed

theorem fallback_email_filters_witness:
  "map_option ld_email (parseZillowLead example_fields
       ''New lead from Zillow. Sent by leads@zillow.com for jane.doe@example.org'' [])
     = Some ''jane.doe@example.org''
   \<and> map_option ld_email (parseRealtorLead example_fields
       ''realtor.com inquiry noreply@move.com bob@example.net'' [])
     = Some ''bob@example.net''
   \<and> map_option ld_email (parseGenericLead example_fields
       ''postmaster@example.com says hi, carol@example.com'' [])
     = Some ''carol@example.com''"
proof -
  let ?zt = "''New lead from Zillow. Sent by leads@zillow.com for jane.doe@example.org''"
  let ?rt = "''realtor.com inquiry noreply@move.com bob@example.net''"
  let ?gt = "''postmaster@example.com says hi, carol@example.com''"
  have z1: "isZillow ?zt [] \<and> firstLabeledEmail zillowEmailPatterns ?zt = None"
    by code_simp
  have z2: "first (filter (\<lambda>e. \<not> includesStr e ''zillow'') (extractEmails ?zt)) = Some ''jane.doe@example.org''"
    by code_simp
  have r1: "isRealtor ?rt [] \<and> firstLabeledEmail realtorEmailPatterns ?rt = None"
    by code_simp
  have r2: "first (filter (\<lambda>e. \<not> includesStr e ''realtor.com'' \<and> \<not> includesStr e ''move.com''
                              \<and> \<not> includesStr e ''noreply'') (extractEmails ?rt)) = Some ''bob@example.net''"
    by code_simp
  have g2: "first (filter (\<lambda>e. \<not> includesStr e ''noreply'' \<and> \<not> includesStr e ''no-reply''
                              \<and> \<not> includesStr e ''donotreply'' \<and> \<not> includesStr e ''mailer-daemon''
                              \<and> \<not> includesStr e ''postmaster'') (extractEmails ?gt)) = Some ''carol@example.com''"
    by code_simp
  show ?thesis
    using fallback_email_filters [of ?zt "[]" example_fields]
      fallback_email_filters [of ?rt "[]" example_fields]
      fallback_email_filters [of ?gt "[]" example_fields]
      z1 z2 r1 r2 g2
    by simp
qed

text \<open>
  The claim as worded fails for the Zillow recognizer: it does not drop the generic mailer
  addresses, so with no labeled email it reports \<open>postmaster@example.com\<close>. The Realtor
  recognizer drops \<open>noreply\<close> only, and reports \<open>no-reply@example.com\<close>.
\<close>

theorem mailer_addresses_not_filtered_counterexample:
  "isZillow ''zillow.com lead postmaster@example.com'' []
   \<and> firstLabeledEmail zillowEmailPatterns ''zillow.com lead postmaster@example.com'' = None
   \<and> map_option ld_email (parseZillowLead example_fields ''zillow.com lead postmaster@example.com'' [])
       = Some ''postmaster@example.com''
   \<and> isRealtor ''realtor.com lead no-reply@example.com'' []
   \<and> firstLabeledEmail realtorEmailPatterns ''realtor.com lead no-reply@example.com'' = None
   \<and> map_option ld_email (parseRealtorLead example_fields ''realtor.com lead no-reply@example.com'' [])
       = Some ''no-reply@example.com''"
  by code_simp

end
